theory Spec2Isabelle
  imports Main "HOL-Library.Char_ord" "HOL-Library.List_Lexorder"
begin

section \<open>Mark V Shaney: a Markov chain text generator (mark.go)\<close>

text \<open>
  A shallow embedding of \<^verbatim>\<open>mark.go\<close>. A Go \<^verbatim>\<open>string\<close> is a sequence of bytes and is
  modelled as a \<^typ>\<open>string\<close> (a list of \<^typ>\<open>char\<close>, one per byte). A Go \<^verbatim>\<open>int\<close> is the
  64-bit signed integer of the usual platforms and is modelled as an \<^typ>\<open>int\<close>; the one
  place where the program does arithmetic that can leave the range (\<^verbatim>\<open>val[s]++\<close>) wraps
  explicitly. A Go map is a finite partial function; where the program ranges over a map,
  the order in which Go yields the keys is not determined by the program and is an extra
  argument of the model. A panic ends the program: every function that can panic returns
  a value of \<open>panic + 'a\<close>. Exhaustion of memory is not modelled.
\<close>

subsection \<open>Panics\<close>

datatype panic =
    Panic string                 \<comment> \<open>\<^verbatim>\<open>panic("...")\<close> of the program, with its message\<close>
  | IndexOutOfRange int nat      \<comment> \<open>runtime error: index out of range [i] with length n\<close>
  | SliceBoundsOutOfRange nat nat  \<comment> \<open>runtime error: slice bounds out of range [lo:hi]\<close>
  | MakesliceLenOutOfRange       \<comment> \<open>runtime error: makeslice: len out of range\<close>

text \<open>Indexing a slice, \<^verbatim>\<open>xs[i]\<close>, with Go's bounds check.\<close>

definition index :: "'a list \<Rightarrow> int \<Rightarrow> panic + 'a" where
  "index xs i =
     (if 0 \<le> i \<and> i < int (length xs) then Inr (xs ! nat i)
      else Inl (IndexOutOfRange i (length xs)))"

subsection \<open>The library: package strings\<close>

text \<open>\<^verbatim>\<open>strings.Join(elems, sep)\<close>.\<close>

fun Join :: "string list \<Rightarrow> string \<Rightarrow> string" where
  "Join [] sep = []"
| "Join [x] sep = x"
| "Join (x # y # ys) sep = x @ sep @ Join (y # ys) sep"

text \<open>
  \<^verbatim>\<open>strings.Split(s, sep)\<close> for a separator of one byte: the fields between the
  separators, one more than there are separators (so at least one, also for the empty
  string).
\<close>

fun Split :: "string \<Rightarrow> char \<Rightarrow> string list" where
  "Split [] sep = [[]]"
| "Split (c # cs) sep =
     (if c = sep then [] # Split cs sep
      else (case Split cs sep of [] \<Rightarrow> [[c]] | f # fs \<Rightarrow> (c # f) # fs))"

subsection \<open>The library: package strconv\<close>

definition MaxInt :: int where "MaxInt = 2 ^ 63 - 1"
definition MinInt :: int where "MinInt = - (2 ^ 63)"

text \<open>The value of an \<^verbatim>\<open>int\<close> expression computed in 64-bit two's complement.\<close>

definition wrap :: "int \<Rightarrow> int" where
  "wrap x = (x + 2 ^ 63) mod 2 ^ 64 - 2 ^ 63"

definition digit_char :: "nat \<Rightarrow> char" where
  "digit_char d = ''0123456789'' ! d"

fun nat_digits :: "nat \<Rightarrow> string" where
  "nat_digits n = (if n < 10 then [digit_char n] else nat_digits (n div 10) @ [digit_char (n mod 10)])"

declare nat_digits.simps [simp del]

text \<open>\<^verbatim>\<open>strconv.Itoa(i)\<close>: the decimal digits of \<open>i\<close>, after a minus sign when \<open>i\<close> is negative.\<close>

definition Itoa :: "int \<Rightarrow> string" where
  "Itoa i = (if i < 0 then CHR ''-'' # nat_digits (nat (- i)) else nat_digits (nat i))"

definition is_digit :: "char \<Rightarrow> bool" where
  "is_digit c = (CHR ''0'' \<le> c \<and> c \<le> CHR ''9'')"

text \<open>The number a string of decimal digits denotes, read from the left.\<close>

definition digits_value :: "string \<Rightarrow> nat" where
  "digits_value ds = foldl (\<lambda>n c. n * 10 + (of_char c - 48)) 0 ds"

datatype NumError = ErrSyntax | ErrRange

text \<open>
  \<^verbatim>\<open>strconv.Atoi(s)\<close>: an optional sign and at least one decimal digit, nothing else;
  a number outside the range of \<^verbatim>\<open>int\<close> is an error too.
\<close>

definition Atoi :: "string \<Rightarrow> NumError + int" where
  "Atoi s =
     (let neg = (s \<noteq> [] \<and> hd s = CHR ''-'');
          ds = (if s \<noteq> [] \<and> (hd s = CHR ''-'' \<or> hd s = CHR ''+'') then tl s else s)
      in if ds = [] \<or> \<not> list_all is_digit ds then Inl ErrSyntax
         else let v = (if neg then - int (digits_value ds) else int (digits_value ds))
              in if v < MinInt \<or> MaxInt < v then Inl ErrRange else Inr v)"

subsection \<open>The library: package unicode/utf8 and the white space of bufio and fmt\<close>

definition RuneError :: nat where "RuneError = 0xFFFD"

definition between :: "nat \<Rightarrow> nat \<Rightarrow> char \<Rightarrow> bool" where
  "between lo hi b = (lo \<le> of_char b \<and> of_char b \<le> hi)"

text \<open>
  \<^verbatim>\<open>utf8.DecodeRune(p)\<close>: the first rune of \<open>p\<close> and the number of bytes of its encoding.
  A byte that starts no well-formed encoding is the rune \<^verbatim>\<open>RuneError\<close> of width 1. The
  second byte of an encoding lies in the range that the first byte accepts (\<open>lo\<close> to
  \<open>hi\<close>), every later byte between \<^verbatim>\<open>0x80\<close> and \<^verbatim>\<open>0xBF\<close>.
\<close>

fun DecodeRune :: "string \<Rightarrow> nat \<times> nat" where
  "DecodeRune [] = (RuneError, 0)"
| "DecodeRune (p0 # ps) =
     (let x = of_char p0 :: nat;
          sz = (if x < 0xC2 \<or> 0xF4 < x then 1 else if x < 0xE0 then 2 else if x < 0xF0 then 3 else 4) :: nat;
          lo = (if x = 0xE0 then 0xA0 else if x = 0xF0 then 0x90 else 0x80) :: nat;
          hi = (if x = 0xED then 0x9F else if x = 0xF4 then 0x8F else 0xBF) :: nat
      in if x < 0x80 then (x, 1)
         else if sz = 1 then (RuneError, 1)
         else (case take (sz - 1) ps of
                 [b1] \<Rightarrow>
                   if sz = 2 \<and> between lo hi b1
                   then (x mod 32 * 64 + of_char b1 mod 64, 2)
                   else (RuneError, 1)
               | [b1, b2] \<Rightarrow>
                   if sz = 3 \<and> between lo hi b1 \<and> between 0x80 0xBF b2
                   then (x mod 16 * 4096 + of_char b1 mod 64 * 64 + of_char b2 mod 64, 3)
                   else (RuneError, 1)
               | [b1, b2, b3] \<Rightarrow>
                   if sz = 4 \<and> between lo hi b1 \<and> between 0x80 0xBF b2 \<and> between 0x80 0xBF b3
                   then (x mod 8 * 262144 + of_char b1 mod 64 * 4096 + of_char b2 mod 64 * 64
                         + of_char b3 mod 64, 4)
                   else (RuneError, 1)
               | _ \<Rightarrow> (RuneError, 1)))"

text \<open>\<^verbatim>\<open>isSpace(r)\<close>, the same set of runes in bufio (\<^verbatim>\<open>ScanWords\<close>) and in fmt (\<^verbatim>\<open>Fscan\<close>).\<close>

definition isSpace :: "nat \<Rightarrow> bool" where
  "isSpace r =
     (r = 0x20 \<or> (0x09 \<le> r \<and> r \<le> 0x0D) \<or> r = 0x85 \<or> r = 0xA0 \<or> r = 0x1680
      \<or> (0x2000 \<le> r \<and> r \<le> 0x200A) \<or> r = 0x2028 \<or> r = 0x2029 \<or> r = 0x202F
      \<or> r = 0x205F \<or> r = 0x3000)"

lemma DecodeRune_width: "DecodeRune (p0 # ps) = (r, w) \<Longrightarrow> 0 < w \<and> w \<le> Suc (length ps)"
  by (auto simp: Let_def split: if_splits list.splits dest!: arg_cong[where f=length])

lemma DecodeRune_ascii: "of_char p0 < (0x80::nat) \<Longrightarrow> DecodeRune (p0 # ps) = (of_char p0, 1)"
  by (simp add: Let_def)

lemma take_eq_ConsD: "take n xs = y # ys \<Longrightarrow> \<exists>m zs. n = Suc m \<and> xs = y # zs \<and> take m zs = ys"
  by (cases n; cases xs) auto

lemma DecodeRune_multi:
  "DecodeRune (p0 # ps) = (r, w) \<Longrightarrow> 1 < w \<Longrightarrow> b \<in> set (take w (p0 # ps)) \<Longrightarrow> (0x80::nat) \<le> of_char b"
  by (auto simp: Let_def between_def split: if_splits list.splits dest!: take_eq_ConsD)

declare DecodeRune.simps [simp del]

subsection \<open>The library: bufio.Scanner and fmt.Fscan\<close>

text \<open>
  A \<^verbatim>\<open>bufio.Scanner\<close> keeps the token it is reading in a buffer that grows up to
  \<^verbatim>\<open>MaxScanTokenSize\<close> bytes. A token that does not fit there, together with the delimiter
  that ends it, makes \<^verbatim>\<open>Scan\<close> return false (the error is \<^verbatim>\<open>ErrTooLong\<close>), as the end
  of the input does; the program's loops \<^verbatim>\<open>for scanner.Scan()\<close> end in both cases and
  never look at \<^verbatim>\<open>scanner.Err()\<close>.
\<close>

definition MaxScanTokenSize :: nat where "MaxScanTokenSize = 64 * 1024"

definition LF :: char where "LF = CHR 0x0A"
definition CR :: char where "CR = CHR 0x0D"

text \<open>\<^verbatim>\<open>dropCR(data)\<close>: a line without the carriage return that may end it.\<close>

definition dropCR :: "string \<Rightarrow> string" where
  "dropCR l = (if l \<noteq> [] \<and> last l = CR then butlast l else l)"

text \<open>
  The texts of the tokens that the loop \<^verbatim>\<open>for scanner.Scan()\<close> sees with the default split
  function \<^verbatim>\<open>ScanLines\<close>; \<open>cur\<close> is the part of the current line read so far. A last line
  that no newline ends is a token when it is not empty.
\<close>

fun scan_lines :: "string \<Rightarrow> string \<Rightarrow> string list" where
  "scan_lines [] cur = (if cur \<noteq> [] \<and> length cur < MaxScanTokenSize then [dropCR cur] else [])"
| "scan_lines (b # bs) cur =
     (if b = LF
      then (if length cur < MaxScanTokenSize then dropCR cur # scan_lines bs [] else [])
      else scan_lines bs (cur @ [b]))"

definition Scanner_lines :: "string \<Rightarrow> string list" where
  "Scanner_lines content = scan_lines content []"

text \<open>
  The same with the split function \<^verbatim>\<open>ScanWords\<close>: the words between runs of white space.
  \<open>cur\<close> is the part of the current word read so far.
\<close>

function scan_words :: "string \<Rightarrow> string \<Rightarrow> string list" where
  "scan_words [] cur = (if cur \<noteq> [] \<and> length cur < MaxScanTokenSize then [cur] else [])"
| "scan_words (b # bs) cur =
     (case DecodeRune (b # bs) of (r, w) \<Rightarrow>
        if isSpace r
        then (if cur = [] then scan_words (drop w (b # bs)) []
              else if length cur + w \<le> MaxScanTokenSize then cur # scan_words (drop w (b # bs)) []
              else [])
        else scan_words (drop w (b # bs)) (cur @ take w (b # bs)))"
  by pat_completeness auto
termination
  by (relation "measure (\<lambda>(bs, cur). length bs)") (auto dest!: DecodeRune_width [OF sym])

definition Scanner_words :: "string \<Rightarrow> string list" where
  "Scanner_words content = scan_words content []"

text \<open>
  The strings that the loop of \<^verbatim>\<open>fmt.Fscan(br, &s)\<close> reads from a \<^verbatim>\<open>bufio.Reader\<close> until
  it returns an error: the words between runs of white space. \<^verbatim>\<open>Fscan\<close> reads runes and
  writes each one to \<open>s\<close> in its UTF-8 encoding, so a byte that is no well-formed encoding
  arrives as the encoding of \<^verbatim>\<open>RuneError\<close>; the encoding of a decoded rune is the bytes it
  was decoded from.

  One call of \<^verbatim>\<open>Fscan\<close> reads at most \<^verbatim>\<open>hugeWid\<close> runes, the white space that it skips before
  the word among them (\<^verbatim>\<open>ss.ReadRune\<close> returns \<^verbatim>\<open>io.EOF\<close> once \<^verbatim>\<open>s.count >= s.argLimit\<close>).
  A call that has read so many runes ends its word there, and the next call reads on
  behind it; a call that has met no word by then returns an error, which ends the loop
  as the end of the input does. \<open>cur\<close> is the part of the current word read so far and \<open>n\<close>
  the number of runes that the current call has read.
\<close>

definition rune_bytes :: "nat \<Rightarrow> nat \<Rightarrow> string \<Rightarrow> string" where
  "rune_bytes r w bs =
     (if r = RuneError \<and> w = 1 then [CHR 0xEF, CHR 0xBF, CHR 0xBD] else take w bs)"

definition hugeWid :: nat where "hugeWid = 2 ^ 30"

function fscan_words :: "string \<Rightarrow> string \<Rightarrow> nat \<Rightarrow> string list" where
  "fscan_words [] cur n = (if cur \<noteq> [] then [cur] else [])"
| "fscan_words (b # bs) cur n =
     (case DecodeRune (b # bs) of (r, w) \<Rightarrow>
        if hugeWid \<le> n
        then (if cur = [] then [] else cur # fscan_words (b # bs) [] 0)
        else if isSpace r
        then (if cur = [] then fscan_words (drop w (b # bs)) [] (n + 1)
              else cur # fscan_words (drop w (b # bs)) [] 1)
        else fscan_words (drop w (b # bs)) (cur @ rune_bytes r w (b # bs)) (n + 1))"
  by pat_completeness auto
termination
  by (relation "measures [\<lambda>(bs, cur, n). length bs, \<lambda>(bs, cur, n). length cur]")
     (auto dest!: DecodeRune_width [OF sym])

definition Fscan_words :: "string \<Rightarrow> string list" where
  "Fscan_words input = fscan_words input [] 0"

subsection \<open>Prefix\<close>

text \<open>\<^verbatim>\<open>func (p Prefix) String() string\<close>\<close>

definition String :: "string list \<Rightarrow> string" where
  "String p = Join p '' ''"

text \<open>\<^verbatim>\<open>copy(dst, src)\<close> writes the first \<open>min (len dst) (len src)\<close> elements of \<open>src\<close> to \<open>dst\<close>.\<close>

definition copy :: "'a list \<Rightarrow> 'a list \<Rightarrow> 'a list" where
  "copy dst src = take (min (length dst) (length src)) src @ drop (min (length dst) (length src)) dst"

text \<open>
  \<^verbatim>\<open>func (p Prefix) Shift(word string)\<close>. The slice expression \<^verbatim>\<open>p[1:]\<close> panics on an
  empty slice. \<open>Shift\<close> writes to the array that its caller's slice shares: the model
  returns the window after the call.
\<close>

definition Shift :: "string list \<Rightarrow> string \<Rightarrow> panic + string list" where
  "Shift p word =
     (if length p < 1 then Inl (SliceBoundsOutOfRange 1 (length p))
      else Inr ((copy p (drop 1 p))[length p - 1 := word]))"

subsection \<open>Chain\<close>

record Chain =
  chain :: "string \<rightharpoonup> string list"
  prefixLen :: int
  freqTable :: "string \<rightharpoonup> (string \<rightharpoonup> int)"

text \<open>Reading a Go map gives the zero value of the element type for a key that is absent.\<close>

definition count_of :: "(string \<rightharpoonup> int) \<Rightarrow> string \<Rightarrow> int" where
  "count_of val s = (case val s of None \<Rightarrow> 0 | Some v \<Rightarrow> v)"

definition suffixes_of :: "(string \<rightharpoonup> string list) \<Rightarrow> string \<Rightarrow> string list" where
  "suffixes_of ch key = (case ch key of None \<Rightarrow> [] | Some xs \<Rightarrow> xs)"

definition table_of :: "(string \<rightharpoonup> (string \<rightharpoonup> int)) \<Rightarrow> string \<Rightarrow> (string \<rightharpoonup> int)" where
  "table_of ft key = (case ft key of None \<Rightarrow> Map.empty | Some val \<Rightarrow> val)"

text \<open>
  \<^verbatim>\<open>for k := range m\<close> visits every key of the map once, in an order that Go leaves open:
  \<open>ks\<close> is an order in which the loop may visit the keys of \<open>m\<close>.
\<close>

definition range_order :: "('k \<rightharpoonup> 'v) \<Rightarrow> 'k list \<Rightarrow> bool" where
  "range_order m ks = (distinct ks \<and> set ks = dom m)"

text \<open>\<^verbatim>\<open>func NewChain(prefixLen int) *Chain\<close>\<close>

definition NewChain :: "int \<Rightarrow> Chain" where
  "NewChain n = \<lparr>chain = Map.empty, prefixLen = n, freqTable = Map.empty\<rparr>"

text \<open>The token that fills the first window: the two bytes \<^verbatim>\<open>""\<close>.\<close>

definition sentinel :: string where
  "sentinel = [CHR 0x22, CHR 0x22]"

text \<open>
  \<^verbatim>\<open>make([]string, n)\<close> is \<^verbatim>\<open>runtime.makeslice\<close>: it panics (\<^verbatim>\<open>makeslice: len out of range\<close>)
  when \<open>n\<close> is negative and when the \<open>n\<close> elements take more than \<^verbatim>\<open>maxAlloc\<close> bytes. On the
  64-bit platforms, where \<^verbatim>\<open>int\<close> has 64 bits, the addresses of the heap have 48 bits and a
  \<^verbatim>\<open>string\<close> takes 16 bytes (a pointer and a length): a slice of more than \<open>2 ^ 44\<close> strings
  is refused. How much memory the machine has is no part of the model: every slice that
  the runtime does not refuse is made.
\<close>

definition maxAlloc :: int where "maxAlloc = 2 ^ 48"

definition stringSize :: int where "stringSize = 16"

text \<open>
  \<^verbatim>\<open>startPrefix := make([]string, c.prefixLen)\<close>, every element then set to the sentinel.
\<close>

definition startPrefix :: "int \<Rightarrow> panic + string list" where
  "startPrefix n =
     (if n < 0 \<or> maxAlloc < n * stringSize then Inl MakesliceLenOutOfRange
      else Inr (replicate (nat n) sentinel))"

text \<open>
  The body of the loops of \<^verbatim>\<open>Build\<close> (lines 103 to 112) and of \<^verbatim>\<open>FileToFreqTable\<close> (lines
  133 to 142), the same statements in both: the state is the chain and the window \<open>p\<close>,
  \<open>s\<close> is the word read.
\<close>

definition add_word :: "Chain \<times> string list \<Rightarrow> string \<Rightarrow> panic + Chain \<times> string list" where
  "add_word st s =
     (let c = fst st; p = snd st; key = String p;
          ft = (case freqTable c key of
                  Some val \<Rightarrow> (freqTable c)(key \<mapsto> val(s \<mapsto> wrap (count_of val s + 1)))
                | None \<Rightarrow> (freqTable c)(key \<mapsto> [s \<mapsto> 1]));
          ch = (chain c)(key \<mapsto> suffixes_of (chain c) key @ [s])
      in case Shift p s of
           Inl e \<Rightarrow> Inl e
         | Inr p' \<Rightarrow> Inr (c\<lparr>chain := ch, freqTable := ft\<rparr>, p'))"

fun add_words :: "Chain \<times> string list \<Rightarrow> string list \<Rightarrow> panic + Chain \<times> string list" where
  "add_words st [] = Inr st"
| "add_words st (s # ss) =
     (case add_word st s of Inl e \<Rightarrow> Inl e | Inr st' \<Rightarrow> add_words st' ss)"

text \<open>\<^verbatim>\<open>func (c *Chain) Build(r io.Reader)\<close>; \<open>input\<close> is what the reader delivers.\<close>

definition Build :: "Chain \<Rightarrow> string \<Rightarrow> panic + Chain" where
  "Build c input =
     (case startPrefix (prefixLen c) of
        Inl e \<Rightarrow> Inl e
      | Inr p \<Rightarrow> (case add_words (c, p) (Fscan_words input) of
                   Inl e \<Rightarrow> Inl e
                 | Inr st \<Rightarrow> Inr (fst st)))"

text \<open>
  \<^verbatim>\<open>func (c *Chain) FileToFreqTable(filename string)\<close>; \<open>file\<close> is the content of the file
  of that name, \<open>None\<close> when \<^verbatim>\<open>os.Open\<close> fails.
\<close>

definition FileToFreqTable :: "Chain \<Rightarrow> string option \<Rightarrow> panic + Chain" where
  "FileToFreqTable c file =
     (case file of
        None \<Rightarrow> Inl (Panic ''Could not open input file.'')
      | Some content \<Rightarrow>
          (case startPrefix (prefixLen c) of
             Inl e \<Rightarrow> Inl e
           | Inr p \<Rightarrow> (case add_words (c, p) (Scanner_words content) of
                        Inl e \<Rightarrow> Inl e
                      | Inr st \<Rightarrow> Inr (fst st))))"

subsection \<open>Writing the frequency table\<close>

text \<open>\<^verbatim>\<open>fmt.Fprintln(writer, s)\<close> writes \<open>s\<close> and a newline.\<close>

definition Fprintln :: "string \<Rightarrow> string" where
  "Fprintln s = s @ [LF]"

text \<open>
  The loop of lines 186 to 188 over the suffixes of one prefix, visited in the order
  \<open>ks2\<close>: \<^verbatim>\<open>sufCount = append(sufCount, k2, strconv.Itoa(v2))\<close>.
\<close>

definition sufCount_of :: "(string \<rightharpoonup> int) \<Rightarrow> string list \<Rightarrow> string list" where
  "sufCount_of val ks2 = foldl (\<lambda>sufCount k2. sufCount @ [k2, Itoa (count_of val k2)]) [] ks2"

text \<open>
  The line that the loop of lines 184 to 190 writes for the prefix \<open>key\<close>:
  \<^verbatim>\<open>key+" "+strings.Join(sufCount, " ")\<close>.
\<close>

definition table_line :: "Chain \<Rightarrow> (string \<Rightarrow> string list) \<Rightarrow> string \<Rightarrow> string" where
  "table_line c ord key =
     key @ '' '' @ Join (sufCount_of (table_of (freqTable c) key) (ord key)) '' ''"

text \<open>
  \<^verbatim>\<open>func (c *Chain) FreqTableToFile(filepath string)\<close>. \<open>created\<close> says whether
  \<^verbatim>\<open>os.Create\<close> succeeds, \<open>ks\<close> is the order in which the first loop visits the prefixes
  and \<open>ord key\<close> the order in which the inner loop visits the suffixes of \<open>key\<close>. The
  result is the content of the file written.
\<close>

definition FreqTableToFile ::
  "Chain \<Rightarrow> bool \<Rightarrow> string list \<Rightarrow> (string \<Rightarrow> string list) \<Rightarrow> panic + string" where
  "FreqTableToFile c created ks ord =
     (if \<not> created then Inl (Panic ''Could not create file from given file path'')
      else
        let keys = sort (foldl (\<lambda>keys k. keys @ [k]) [] ks)
        in Inr (foldl (\<lambda>out key. out @ Fprintln (table_line c ord key))
                 (Fprintln (Itoa (prefixLen c))) keys))"

subsection \<open>Reading the frequency table\<close>

text \<open>The loop of lines 208 to 210: \<^verbatim>\<open>p = append(p, items[i])\<close> for \<open>i\<close> below \<open>n\<close>.\<close>

function prefix_items :: "string list \<Rightarrow> int \<Rightarrow> int \<Rightarrow> string list \<Rightarrow> panic + string list" where
  "prefix_items items n i p =
     (if i < n
      then (case index items i of
              Inl e \<Rightarrow> Inl e
            | Inr x \<Rightarrow> prefix_items items n (i + 1) (p @ [x]))
      else Inr p)"
  by pat_completeness auto
termination
  by (relation "measure (\<lambda>(items, n, i, p). nat (n - i))") auto

text \<open>
  The loop of lines 215 to 221 over the pairs of a line, from the field \<open>i\<close> on; \<open>val\<close> is
  the map \<^verbatim>\<open>c.freqTable[key]\<close> that the loop fills. \<^verbatim>\<open>items[i+1]\<close> is read first, then
  converted, then \<^verbatim>\<open>items[i]\<close> is read.
\<close>

function suffix_items :: "string list \<Rightarrow> int \<Rightarrow> (string \<rightharpoonup> int) \<Rightarrow> panic + (string \<rightharpoonup> int)" where
  "suffix_items items i val =
     (if i < int (length items)
      then (case index items (i + 1) of
              Inl e \<Rightarrow> Inl e
            | Inr f \<Rightarrow>
                (case Atoi f of
                   Inl err \<Rightarrow> Inl (Panic ''Could not convert string to integer'')
                 | Inr sfxFreq \<Rightarrow>
                     (case index items i of
                        Inl e \<Rightarrow> Inl e
                      | Inr sfx \<Rightarrow> suffix_items items (i + 2) (val(sfx \<mapsto> sfxFreq)))))
      else Inr val)"
  by pat_completeness auto
termination
  by (relation "measure (\<lambda>(items, i, val). nat (int (length items) - i))") auto

declare prefix_items.simps [simp del] suffix_items.simps [simp del]

text \<open>The body of the loop of \<^verbatim>\<open>FreqTableFromFreqFile\<close> (lines 204 to 231) for one line.\<close>

definition FreqFile_line :: "Chain \<Rightarrow> string \<Rightarrow> panic + Chain" where
  "FreqFile_line c line =
     (let items = Split line (CHR '' '')
      in if length items > 1
         then (case prefix_items items (prefixLen c) 0 [] of
                 Inl e \<Rightarrow> Inl e
               | Inr p \<Rightarrow>
                   (case suffix_items items (prefixLen c) Map.empty of
                      Inl e \<Rightarrow> Inl e
                    | Inr val \<Rightarrow> Inr (c\<lparr>freqTable := (freqTable c)(String p \<mapsto> val)\<rparr>)))
         else if length items = 1
         then (if length (items ! 0) > 0
               then (case Atoi (items ! 0) of
                       Inl err \<Rightarrow> Inl (Panic ''Could not convert string to integer'')
                     | Inr n \<Rightarrow> Inr (c\<lparr>prefixLen := n\<rparr>))
               else Inr c)
         else Inr c)"

fun FreqFile_lines :: "Chain \<Rightarrow> string list \<Rightarrow> panic + Chain" where
  "FreqFile_lines c [] = Inr c"
| "FreqFile_lines c (l # ls) =
     (case FreqFile_line c l of Inl e \<Rightarrow> Inl e | Inr c' \<Rightarrow> FreqFile_lines c' ls)"

text \<open>
  \<^verbatim>\<open>func FreqTableFromFreqFile(freqFile string) Chain\<close>; \<open>file\<close> is the content of the file
  of that name, \<open>None\<close> when \<^verbatim>\<open>os.Open\<close> fails.
\<close>

definition FreqTableFromFreqFile :: "string option \<Rightarrow> panic + Chain" where
  "FreqTableFromFreqFile file =
     (case file of
        None \<Rightarrow> Inl (Panic ''Could not open frequency table file.'')
      | Some content \<Rightarrow> FreqFile_lines (NewChain 0) (Scanner_lines content))"

subsection \<open>Expanding the frequency table\<close>

text \<open>The loop of lines 242 to 244: \<^verbatim>\<open>for i := 0; i < v2; i++ { sfxs = append(sfxs, k2) }\<close>.\<close>

function repeat_suffix :: "int \<Rightarrow> int \<Rightarrow> string \<Rightarrow> string list \<Rightarrow> string list" where
  "repeat_suffix i v2 k2 sfxs =
     (if i < v2 then repeat_suffix (i + 1) v2 k2 (sfxs @ [k2]) else sfxs)"
  by pat_completeness auto
termination
  by (relation "measure (\<lambda>(i, v2, k2, sfxs). nat (v2 - i))") auto

declare repeat_suffix.simps [simp del]

text \<open>The loop of lines 240 to 245 over the suffixes of one prefix, visited in the order \<open>ks2\<close>.\<close>

definition expand_suffixes :: "(string \<rightharpoonup> int) \<Rightarrow> string list \<Rightarrow> string list" where
  "expand_suffixes v ks2 = foldl (\<lambda>sfxs k2. repeat_suffix 0 (count_of v k2) k2 sfxs) [] ks2"

text \<open>
  \<^verbatim>\<open>func (c *Chain) ChainFromFreqTable()\<close>; \<open>ks\<close> is the order in which the loop visits the
  prefixes and \<open>ord k\<close> the order in which the inner loop visits the suffixes of \<open>k\<close>.
\<close>

definition ChainFromFreqTable :: "Chain \<Rightarrow> string list \<Rightarrow> (string \<Rightarrow> string list) \<Rightarrow> Chain" where
  "ChainFromFreqTable c ks ord =
     foldl (\<lambda>c k. c\<lparr>chain := (chain c)(k \<mapsto> expand_suffixes (table_of (freqTable c) k) (ord k))\<rparr>)
       c ks"

subsection \<open>Generating text\<close>

text \<open>
  \<^verbatim>\<open>rand.Intn(n)\<close> returns some number from 0 to \<open>n - 1\<close>. The numbers that the calls of one
  run return are given by a sequence \<open>rnd\<close>, whose \<open>i\<close>-th element is reduced modulo \<open>n\<close>:
  every choice that \<^verbatim>\<open>rand.Intn\<close> can make is the choice of some sequence.
\<close>

definition Intn :: "(nat \<Rightarrow> nat) \<Rightarrow> nat \<Rightarrow> nat \<Rightarrow> nat" where
  "Intn rnd i n = rnd i mod n"

text \<open>
  The loop of \<^verbatim>\<open>Generate\<close> (lines 258 to 266) from the iteration \<open>i\<close> on, with the window
  \<open>p\<close> and the words chosen so far.
\<close>

function Generate_loop ::
  "Chain \<Rightarrow> (nat \<Rightarrow> nat) \<Rightarrow> int \<Rightarrow> int \<Rightarrow> string list \<Rightarrow> string list \<Rightarrow> panic + string list" where
  "Generate_loop c rnd n i p words =
     (if i < n
      then (let choices = suffixes_of (chain c) (String p)
            in if length choices = 0 then Inr words
               else let next = choices ! Intn rnd (nat i) (length choices)
                    in (case Shift p next of
                          Inl e \<Rightarrow> Inl e
                        | Inr p' \<Rightarrow> Generate_loop c rnd n (i + 1) p' (words @ [next])))
      else Inr words)"
  by pat_completeness auto
termination
  by (relation "measure (\<lambda>(c, rnd, n, i, p, words). nat (n - i))") auto

declare Generate_loop.simps [simp del]

text \<open>The words that \<^verbatim>\<open>Generate\<close> has in \<^verbatim>\<open>words\<close> when its loop ends.\<close>

definition Generate_words :: "Chain \<Rightarrow> int \<Rightarrow> (nat \<Rightarrow> nat) \<Rightarrow> panic + string list" where
  "Generate_words c n rnd =
     (case startPrefix (prefixLen c) of
        Inl e \<Rightarrow> Inl e
      | Inr p \<Rightarrow> Generate_loop c rnd n 0 p [])"

text \<open>\<^verbatim>\<open>func (c *Chain) Generate(n int) string\<close>\<close>

definition Generate :: "Chain \<Rightarrow> int \<Rightarrow> (nat \<Rightarrow> nat) \<Rightarrow> panic + string" where
  "Generate c n rnd =
     (case Generate_words c n rnd of Inl e \<Rightarrow> Inl e | Inr words \<Rightarrow> Inr (Join words '' ''))"

subsection \<open>The program\<close>

text \<open>The loop of \<^verbatim>\<open>main\<close> (lines 303 to 305) over the input files.\<close>

fun read_files :: "Chain \<Rightarrow> string option list \<Rightarrow> panic + Chain" where
  "read_files c [] = Inr c"
| "read_files c (f # fs) =
     (case FileToFreqTable c f of Inl e \<Rightarrow> Inl e | Inr c' \<Rightarrow> read_files c' fs)"

text \<open>
  What a run of the program leaves open: whether the output file can be created, the
  orders in which the loops visit the prefixes and the suffixes of a map, and the random
  numbers.
\<close>

record choices =
  created :: bool
  prefix_order :: "string list"
  suffix_order :: "string \<Rightarrow> string list"
  random_numbers :: "nat \<Rightarrow> nat"

text \<open>
  \<^verbatim>\<open>func main()\<close>; \<open>args\<close> is \<^verbatim>\<open>os.Args\<close> and \<open>files\<close> maps the name of a file to its
  content. The result is the files after the run and the text written to the standard
  output.
\<close>

definition main :: "string list \<Rightarrow> (string \<rightharpoonup> string) \<Rightarrow> choices \<Rightarrow> panic + (string \<rightharpoonup> string) \<times> string" where
  "main args files ch =
     (if length args < 4 then Inl (Panic ''Command does not have enough arguments'')
      else if args ! 1 = ''generate''
      then (case Atoi (args ! 3) of
              Inl err \<Rightarrow> Inl (Panic ''Could not convert integer to string'')
            | Inr n \<Rightarrow>
                if n < 0 then Inl (Panic ''Number of words must be positive'')
                else (case FreqTableFromFreqFile (files (args ! 2)) of
                        Inl e \<Rightarrow> Inl e
                      | Inr c \<Rightarrow>
                          (case Generate (ChainFromFreqTable c (prefix_order ch) (suffix_order ch))
                                  n (random_numbers ch) of
                             Inl e \<Rightarrow> Inl e
                           | Inr text \<Rightarrow> Inr (files, Fprintln text))))
      else if args ! 1 = ''read''
      then (case Atoi (args ! 2) of
              Inl err \<Rightarrow> Inl (Panic ''Could not convert integer to string'')
            | Inr k \<Rightarrow>
                if k < 1 then Inl (Panic ''Prefix length must be greater than 0'')
                else (case read_files (NewChain k) (map files (drop 4 args)) of
                        Inl e \<Rightarrow> Inl e
                      | Inr c \<Rightarrow>
                          (case FreqTableToFile c (created ch) (prefix_order ch) (suffix_order ch) of
                             Inl e \<Rightarrow> Inl e
                           | Inr out \<Rightarrow> Inr (files(args ! 3 \<mapsto> out), []))))
      else Inl (Panic ''Invalid word in program command''))"

subsection \<open>The sum of the counts of a table\<close>

text \<open>The sum of the counts that a table records for one prefix, and for all its prefixes.\<close>

definition prefix_count :: "(string \<rightharpoonup> int) \<Rightarrow> int" where
  "prefix_count val = (\<Sum>s\<in>dom val. count_of val s)"

definition total_count :: "(string \<rightharpoonup> (string \<rightharpoonup> int)) \<Rightarrow> int" where
  "total_count ft = (\<Sum>key\<in>dom ft. prefix_count (table_of ft key))"

text \<open>
  What holds of every table that the program has built: it is finite and its counts are
  positive.
\<close>

definition counted :: "(string \<rightharpoonup> (string \<rightharpoonup> int)) \<Rightarrow> bool" where
  "counted ft =
     (finite (dom ft) \<and>
      (\<forall>key val. ft key = Some val \<longrightarrow> finite (dom val) \<and> (\<forall>s v. val s = Some v \<longrightarrow> 1 \<le> v)))"

subsection \<open>The fields of a line of the table\<close>

text \<open>
  The fields after the prefix of a line, as pairs of a suffix and a count field; whether
  a count field is an integer for \<^verbatim>\<open>strconv.Atoi\<close>, and which.
\<close>

definition flat :: "(string \<times> string) list \<Rightarrow> string list" where
  "flat ps = concat (map (\<lambda>(s, f). [s, f]) ps)"

definition parses :: "string \<Rightarrow> bool" where
  "parses f = (case Atoi f of Inl err \<Rightarrow> False | Inr v \<Rightarrow> True)"

definition int_of :: "string \<Rightarrow> int" where
  "int_of f = (case Atoi f of Inl err \<Rightarrow> 0 | Inr v \<Rightarrow> v)"

text \<open>
  A word of a table that the program has built from its input: it is not empty and holds
  no space, newline or carriage return. The sentinel is such a word.
\<close>

definition plain :: "char \<Rightarrow> bool" where
  "plain x = (x \<noteq> CHR '' '' \<and> x \<noteq> LF \<and> x \<noteq> CR)"

definition field_ok :: "string \<Rightarrow> bool" where
  "field_ok w = (w \<noteq> [] \<and> CHR '' '' \<notin> set w \<and> LF \<notin> set w \<and> CR \<notin> set w)"

text \<open>
  What holds of every table that the program has built with prefixes of \<open>k\<close> words: it is
  finite, every key is \<open>k\<close> words joined by spaces, every key has a suffix, and every
  count is in the range of \<^verbatim>\<open>int\<close>.
\<close>

definition built :: "nat \<Rightarrow> (string \<rightharpoonup> (string \<rightharpoonup> int)) \<Rightarrow> bool" where
  "built k ft =
     (finite (dom ft) \<and>
      (\<forall>key val. ft key = Some val \<longrightarrow>
         (\<exists>ws. key = String ws \<and> length ws = k \<and> (\<forall>w\<in>set ws. field_ok w))
         \<and> val \<noteq> Map.empty \<and> finite (dom val)
         \<and> (\<forall>s v. val s = Some v \<longrightarrow> field_ok s \<and> MinInt \<le> v \<and> v \<le> MaxInt)))"

subsection \<open>The token stream of the specification\<close>

text \<open>
  The runes of an input, each with the bytes it is decoded from: what a reader that
  decodes rune by rune (\<^verbatim>\<open>utf8.DecodeRune\<close>) meets from the first byte on.
\<close>

function runes :: "string \<Rightarrow> (nat \<times> string) list" where
  "runes [] = []"
| "runes (b # bs) =
     (case DecodeRune (b # bs) of (r, w) \<Rightarrow> (r, take w (b # bs)) # runes (drop w (b # bs)))"
  by pat_completeness auto
termination
  by (relation "measure length") (auto dest!: DecodeRune_width [OF sym])

text \<open>A rune of white space.\<close>

definition white :: "nat \<times> string \<Rightarrow> bool" where
  "white re = isSpace (fst re)"

text \<open>
  The maximal runs of elements that are no separators: the pieces that splitting a
  sequence on any run of separators leaves, none of them empty.
\<close>

function runs :: "('a \<Rightarrow> bool) \<Rightarrow> 'a list \<Rightarrow> 'a list list" where
  "runs sep [] = []"
| "runs sep (x # xs) =
     (if sep x then runs sep xs
      else (x # takeWhile (\<lambda>y. \<not> sep y) xs) # runs sep (dropWhile (\<lambda>y. \<not> sep y) xs))"
  by pat_completeness auto
termination
  by (relation "measure (\<lambda>(sep, xs). length xs)") (auto simp: less_Suc_eq_le length_dropWhile_le)

text \<open>
  The token stream of an input as the specification describes it (section 4.2): the
  white-space-delimited strings, produced by splitting on any run of white space,
  discarding empties. This definition is independent of the two readers of the program,
  \<^verbatim>\<open>fmt.Fscan\<close> and the scanner; the number of tokens of an input is the length of this
  list.
\<close>

definition tokens :: "string \<Rightarrow> string list" where
  "tokens input = map (\<lambda>run. concat (map snd run)) (runs white (runes input))"

text \<open>
  The bytes that \<^verbatim>\<open>Fscan\<close> writes for a rune, and the words of a sequence of runes for a
  reader that has the bytes \<open>cur\<close> of a first word already: \<open>f\<close> gives the bytes that the
  reader keeps of a rune.
\<close>

definition written :: "nat \<times> string \<Rightarrow> string" where
  "written re = rune_bytes (fst re) (length (snd re)) (snd re)"

definition words_after :: "(nat \<times> string \<Rightarrow> string) \<Rightarrow> string \<Rightarrow> (nat \<times> string) list \<Rightarrow> string list" where
  "words_after f cur rs =
     (let t = cur @ concat (map f (takeWhile (\<lambda>y. \<not> white y) rs))
      in (if t = [] then [] else [t])
         @ map (\<lambda>run. concat (map f run)) (runs white (dropWhile (\<lambda>y. \<not> white y) rs)))"

subsection \<open>Concrete chains\<close>

text \<open>
  A table of two prefixes of two words, and an order in which the suffixes of each
  prefix may be visited.
\<close>

definition small_table :: Chain where
  "small_table =
     \<lparr>chain = Map.empty, prefixLen = 2,
      freqTable = [''b c'' \<mapsto> [''d'' \<mapsto> 1], ''a b'' \<mapsto> [''c'' \<mapsto> 2, ''e'' \<mapsto> 1]]\<rparr>"

definition small_order :: "string \<Rightarrow> string list" where
  "small_order key = (if key = ''a b'' then [''e'', ''c''] else [''d''])"

text \<open>
  The chain that \<^verbatim>\<open>FreqTableFromFreqFile\<close> and \<^verbatim>\<open>ChainFromFreqTable\<close> make of the file of
  the one line \<^verbatim>\<open>a 1\<close>: no line sets \<open>prefixLen\<close>, which stays 0.
\<close>

definition no_prefix_chain :: Chain where
  "no_prefix_chain = \<lparr>chain = [[] \<mapsto> [''a'']], prefixLen = 0, freqTable = [[] \<mapsto> [''a'' \<mapsto> 1]]\<rparr>"

text \<open>A chain of prefixes of one word, in which no word follows \<^verbatim>\<open>am\<close> and \<^verbatim>\<open>was\<close>.\<close>

definition walk_chain :: Chain where
  "walk_chain = \<lparr>chain = [sentinel \<mapsto> [''I''], ''I'' \<mapsto> [''am'', ''was'']], prefixLen = 1,
                  freqTable = Map.empty\<rparr>"

text \<open>
  A word of 40000 bytes, the table that \<^verbatim>\<open>FileToFreqTable\<close> builds from an input of two
  such words with prefixes of one word, and the file that \<^verbatim>\<open>FreqTableToFile\<close> writes for
  this table: the line of the second prefix has 80004 bytes.
\<close>

definition long_word :: string where
  "long_word = replicate 40000 (CHR ''a'')"

definition long_chain :: Chain where
  "long_chain =
     \<lparr>chain = [sentinel \<mapsto> [long_word], long_word \<mapsto> [long_word]], prefixLen = 1,
      freqTable = [sentinel \<mapsto> [long_word \<mapsto> 1], long_word \<mapsto> [long_word \<mapsto> 1]]\<rparr>"

definition long_file :: string where
  "long_file =
     Fprintln ''1'' @ Fprintln (sentinel @ '' '' @ long_word @ '' 1'')
     @ Fprintln (long_word @ '' '' @ long_word @ '' 1'')"

text \<open>
  The chain that \<^verbatim>\<open>FileToFreqTable\<close> builds from the input \<^verbatim>\<open>a b a b\<close> with prefixes of one
  word, and an order in which the suffixes of each of its prefixes may be visited.
\<close>

definition round_chain :: Chain where
  "round_chain =
     \<lparr>chain = [sentinel \<mapsto> [''a''], ''a'' \<mapsto> [''b'', ''b''], ''b'' \<mapsto> [''a'']], prefixLen = 1,
      freqTable = [sentinel \<mapsto> [''a'' \<mapsto> 1], ''a'' \<mapsto> [''b'' \<mapsto> 2], ''b'' \<mapsto> [''a'' \<mapsto> 1]]\<rparr>"

definition round_order :: "string \<Rightarrow> string list" where
  "round_order key = (if key = ''a'' then [''b''] else [''a''])"

text \<open>
  An input of four words, the second of 65536 bytes; the chain that \<^verbatim>\<open>FileToFreqTable\<close>
  returns for it with prefixes of one word, and the chain that \<^verbatim>\<open>Build\<close> returns.
\<close>

definition big_word :: string where
  "big_word = replicate 65536 (CHR ''w'')"

definition big_input :: string where
  "big_input = ''x '' @ big_word @ '' y z''"

definition cut_chain :: Chain where
  "cut_chain = \<lparr>chain = [sentinel \<mapsto> [''x'']], prefixLen = 1, freqTable = [sentinel \<mapsto> [''x'' \<mapsto> 1]]\<rparr>"

definition big_chain :: Chain where
  "big_chain =
     \<lparr>chain = [sentinel \<mapsto> [''x''], ''x'' \<mapsto> [big_word], big_word \<mapsto> [''y''], ''y'' \<mapsto> [''z'']],
      prefixLen = 1,
      freqTable = [sentinel \<mapsto> [''x'' \<mapsto> 1], ''x'' \<mapsto> [big_word \<mapsto> 1], big_word \<mapsto> [''y'' \<mapsto> 1],
                   ''y'' \<mapsto> [''z'' \<mapsto> 1]]\<rparr>"

section \<open>Properties of the library functions and of the loops\<close>

text \<open>The definitions that evaluate the program on a concrete input.\<close>

lemmas eval_defs = NewChain_def startPrefix_def maxAlloc_def stringSize_def Scanner_words_def Fscan_words_def hugeWid_def isSpace_def
  MaxScanTokenSize_def add_word_def String_def sentinel_def Shift_def copy_def
  Scanner_lines_def LF_def CR_def dropCR_def FreqFile_line_def index_def
  Atoi_def is_digit_def digits_value_def MinInt_def MaxInt_def suffixes_of_def Intn_def
  count_of_def table_of_def wrap_def rune_bytes_def RuneError_def between_def
  prefix_items.simps suffix_items.simps DecodeRune.simps Generate_loop.simps repeat_suffix.simps
  Itoa_def nat_digits.simps digit_char_def Fprintln_def sufCount_of_def expand_suffixes_def Let_def
  table_line_def parses_def int_of_def flat_def

subsection \<open>Folds that append\<close>

lemma foldl_append_concat: "foldl (\<lambda>acc x. acc @ g x) acc xs = acc @ concat (map g xs)"
  by (induction xs arbitrary: acc) simp_all

lemma foldl_snoc: "foldl (\<lambda>acc x. acc @ [x]) acc xs = acc @ xs"
  by (induction xs arbitrary: acc) simp_all

subsection \<open>Split\<close>

lemma Split_not_Nil: "Split s sep \<noteq> []"
  by (induction s) (auto split: list.splits)

lemma Split_no_sep: "sep \<notin> set s \<Longrightarrow> Split s sep = [s]"
  by (induction s) auto

subsection \<open>Shift and the window\<close>

lemma Shift_Nil: "Shift [] w = Inl (SliceBoundsOutOfRange 1 0)"
  by (simp add: Shift_def)

lemma Shift_Cons: "Shift (x # xs) w = Inr (xs @ [w])"
proof -
  have "length (drop (length xs) (x # xs)) = 1" by simp
  then obtain y where "drop (length xs) (x # xs) = [y]"
    by (cases "drop (length xs) (x # xs)") auto
  then show ?thesis by (simp add: Shift_def copy_def min_def)
qed

lemma Shift_nonempty: "p \<noteq> [] \<Longrightarrow> Shift p w = Inr (tl p @ [w])"
  by (cases p) (simp_all add: Shift_Cons)

lemma add_word_Nil: "add_word (c, []) s = Inl (SliceBoundsOutOfRange 1 0)"
  by (simp add: add_word_def Shift_Nil Let_def)

lemma add_words_Nil: "ws \<noteq> [] \<Longrightarrow> add_words (c, []) ws = Inl (SliceBoundsOutOfRange 1 0)"
  by (cases ws) (simp_all add: add_word_Nil)

lemma add_word_nonempty:
  "p \<noteq> [] \<Longrightarrow> \<exists>c'. add_word (c, p) s = Inr (c', tl p @ [s]) \<and> prefixLen c' = prefixLen c"
  by (simp add: add_word_def Shift_nonempty Let_def)

lemma add_words_nonempty:
  "p \<noteq> [] \<Longrightarrow> \<exists>c' p'. add_words (c, p) ws = Inr (c', p') \<and> p' \<noteq> [] \<and> prefixLen c' = prefixLen c"
proof (induction ws arbitrary: c p)
  case Nil
  then show ?case by simp
next
  case (Cons s ws)
  from add_word_nonempty[OF Cons.prems, of c s] obtain c1 where
    c1: "add_word (c, p) s = Inr (c1, tl p @ [s])" "prefixLen c1 = prefixLen c" by blast
  from Cons.IH[of "tl p @ [s]" c1] obtain c' p' where
    "add_words (c1, tl p @ [s]) ws = Inr (c', p')" "p' \<noteq> []" "prefixLen c' = prefixLen c1" by auto
  with c1 show ?case by simp
qed

lemma startPrefix_pos:
  "1 \<le> n \<Longrightarrow> n * stringSize \<le> maxAlloc \<Longrightarrow> \<exists>p. startPrefix n = Inr p \<and> p \<noteq> []"
  by (auto simp: startPrefix_def)

lemma startPrefix_panic:
  "n < 0 \<or> maxAlloc < n * stringSize \<Longrightarrow> startPrefix n = Inl MakesliceLenOutOfRange"
  by (simp add: startPrefix_def)

lemma startPrefix_Inr:
  "startPrefix n = Inr p \<Longrightarrow> p = replicate (nat n) sentinel \<and> 0 \<le> n \<and> n * stringSize \<le> maxAlloc"
  by (auto simp: startPrefix_def split: if_splits)

subsection \<open>The lines of a frequency file\<close>

lemma FreqFile_lines_append:
  "FreqFile_lines c0 pre = Inr c \<Longrightarrow> FreqFile_lines c0 (pre @ ls) = FreqFile_lines c ls"
  by (induction pre arbitrary: c0) (auto split: sum.splits)

lemma FreqFile_line_single:
  assumes "CHR '' '' \<notin> set line" "line \<noteq> []"
  shows "FreqFile_line c line =
    (case Atoi line of
       Inl err \<Rightarrow> Inl (Panic ''Could not convert string to integer'')
     | Inr n \<Rightarrow> Inr (c\<lparr>prefixLen := n\<rparr>))"
  using assms by (simp add: FreqFile_line_def Split_no_sep)

lemma FreqFile_line_empty: "FreqFile_line c [] = Inr c"
  by (simp add: FreqFile_line_def)

text \<open>
  When the number of fields from \<open>i\<close> on is odd, the loop over the pairs reads beyond the
  last field, unless it has panicked before.
\<close>

lemma suffix_items_odd:
  "i \<le> int (length items) \<Longrightarrow> odd (int (length items) - i) \<Longrightarrow> \<exists>e. suffix_items items i val = Inl e"
proof (induction items i val rule: suffix_items.induct)
  case (1 items i val)
  from "1.prems" have lt: "i < int (length items)"
    by (cases "i = int (length items)") auto
  show ?case
  proof (cases "index items (i + 1)")
    case (Inl e)
    then show ?thesis using lt by (subst suffix_items.simps) simp
  next
    case f: (Inr f)
    then have le2: "i + 2 \<le> int (length items)"
      by (auto simp: index_def split: if_splits)
    show ?thesis
    proof (cases "Atoi f")
      case (Inl err)
      then show ?thesis using lt f by (subst suffix_items.simps) simp
    next
      case v: (Inr v)
      show ?thesis
      proof (cases "index items i")
        case (Inl e)
        then show ?thesis using lt f v by (subst suffix_items.simps) simp
      next
        case s: (Inr s)
        have "\<exists>e. suffix_items items (i + 2) (val(s \<mapsto> v)) = Inl e"
          using "1.IH"[OF lt f v s le2] "1.prems"(2) by (simp add: fun_upd_def)
        then obtain e where "suffix_items items (i + 2) (val(s \<mapsto> v)) = Inl e" ..
        then have "suffix_items items i val = Inl e"
          by (subst suffix_items.simps) (simp add: lt f v s)
        then show ?thesis ..
      qed
    qed
  qed
qed

text \<open>When the line has fewer than \<open>n\<close> fields, the loop over the prefix reads beyond the last.\<close>

lemma prefix_items_fail:
  "0 \<le> i \<Longrightarrow> i \<le> int (length items) \<Longrightarrow> int (length items) < n \<Longrightarrow> \<exists>e. prefix_items items n i p = Inl e"
proof (induction items n i p rule: prefix_items.induct)
  case (1 items n i p)
  show ?case
  proof (cases "i = int (length items)")
    case True
    then show ?thesis using "1.prems" by (subst prefix_items.simps) (simp add: index_def)
  next
    case False
    with "1.prems" have lt: "i < int (length items)" by simp
    then obtain x where x: "index items i = Inr x" using "1.prems" by (simp add: index_def)
    have "\<exists>e. prefix_items items n (i + 1) (p @ [x]) = Inl e"
      using "1.IH"[OF _ x] "1.prems" lt by simp
    then show ?thesis using x "1.prems" lt by (subst prefix_items.simps) simp
  qed
qed

lemma FreqFile_line_odd:
  assumes "length (Split line (CHR '' '')) > 1"
      and "odd (int (length (Split line (CHR '' ''))) - prefixLen c)"
  shows "\<exists>e. FreqFile_line c line = Inl e"
proof (cases "prefixLen c \<le> int (length (Split line (CHR '' '')))")
  case True
  from suffix_items_odd[OF True assms(2)] obtain e where
    "suffix_items (Split line (CHR '' '')) (prefixLen c) Map.empty = Inl e" by blast
  then show ?thesis using assms(1) by (auto simp: FreqFile_line_def Let_def split: sum.splits)
next
  case False
  then have "\<exists>e. prefix_items (Split line (CHR '' '')) (prefixLen c) 0 [] = Inl e"
    by (intro prefix_items_fail) auto
  then show ?thesis using assms(1) by (auto simp: FreqFile_line_def Let_def split: sum.splits)
qed

subsection \<open>The expansion of a table\<close>

lemma repeat_suffix_replicate: "repeat_suffix i v k sfxs = sfxs @ replicate (nat (v - i)) k"
proof (induction i v k sfxs rule: repeat_suffix.induct)
  case (1 i v2 k2 sfxs)
  show ?case
  proof (cases "i < v2")
    case True
    then have "nat (v2 - i) = Suc (nat (v2 - (i + 1)))" by simp
    with True "1.IH" show ?thesis
      by (subst repeat_suffix.simps) simp
  next
    case False
    then show ?thesis by (subst repeat_suffix.simps) simp
  qed
qed

lemma expand_suffixes_concat:
  "expand_suffixes v ks = concat (map (\<lambda>k. replicate (nat (count_of v k)) k) ks)"
  by (simp add: expand_suffixes_def repeat_suffix_replicate foldl_append_concat)

lemma ChainFromFreqTable_freqTable [simp]:
  "freqTable (ChainFromFreqTable c ks ord) = freqTable c"
  unfolding ChainFromFreqTable_def by (induction ks arbitrary: c) simp_all

lemma ChainFromFreqTable_prefixLen [simp]:
  "prefixLen (ChainFromFreqTable c ks ord) = prefixLen c"
  unfolding ChainFromFreqTable_def by (induction ks arbitrary: c) simp_all

lemma ChainFromFreqTable_chain:
  "chain (ChainFromFreqTable c ks ord) key =
     (if key \<in> set ks then Some (expand_suffixes (table_of (freqTable c) key) (ord key))
      else chain c key)"
proof (induction ks arbitrary: c)
  case Nil
  then show ?case by (simp add: ChainFromFreqTable_def)
next
  case (Cons k ks)
  let ?c1 = "c\<lparr>chain := (chain c)(k \<mapsto> expand_suffixes (table_of (freqTable c) k) (ord k))\<rparr>"
  have "ChainFromFreqTable c (k # ks) ord = ChainFromFreqTable ?c1 ks ord"
    by (simp add: ChainFromFreqTable_def)
  then show ?case using Cons.IH[of ?c1] by simp
qed

lemma count_list_replicate_eq: "count_list (replicate n x) y = (if x = y then n else 0)"
  by (induction n) auto

lemma count_list_concat_replicate:
  "distinct ks \<Longrightarrow>
   count_list (concat (map (\<lambda>k. replicate (f k) k) ks)) s = (if s \<in> set ks then f s else 0)"
  by (induction ks) (auto simp: count_list_replicate_eq)

lemma length_concat_replicate:
  "length (concat (map (\<lambda>k. replicate (f k) k) ks)) = sum_list (map f ks)"
  by (induction ks) simp_all

subsection \<open>The loop of Generate\<close>

text \<open>
  From a window that is not empty the loop returns: it adds at most \<open>n - i\<close> words, and
  when it adds fewer, the window it stopped at (the last words of the first window
  followed by the words added) has no suffix in the chain.
\<close>

lemma Generate_loop_bound:
  "p \<noteq> [] \<Longrightarrow>
   \<exists>new. Generate_loop c rnd n i p words = Inr (words @ new)
      \<and> int (length new) \<le> max 0 (n - i)
      \<and> (int (length new) < n - i \<longrightarrow>
           suffixes_of (chain c) (String (drop (length new) (p @ new))) = [])"
proof (induction c rnd n i p words rule: Generate_loop.induct)
  case (1 c rnd n i p words)
  show ?case
  proof (cases "i < n")
    case False
    then have "Generate_loop c rnd n i p words = Inr (words @ [])"
      by (subst Generate_loop.simps) simp
    with False show ?thesis by (intro exI[of _ "[]"]) simp
  next
    case True
    define choices where "choices = suffixes_of (chain c) (String p)"
    show ?thesis
    proof (cases "length choices = 0")
      case True
      then have "Generate_loop c rnd n i p words = Inr (words @ [])"
        using \<open>i < n\<close> by (subst Generate_loop.simps) (simp add: choices_def Let_def)
      with True show ?thesis by (intro exI[of _ "[]"]) (simp add: choices_def)
    next
      case False
      define nxt where "nxt = choices ! Intn rnd (nat i) (length choices)"
      have sh: "Shift p nxt = Inr (tl p @ [nxt])"
        using "1.prems" by (rule Shift_nonempty)
      from "1.IH"[OF \<open>i < n\<close> choices_def False nxt_def sh]
      obtain new where new:
        "Generate_loop c rnd n (i + 1) (tl p @ [nxt]) (words @ [nxt]) = Inr ((words @ [nxt]) @ new)"
        "int (length new) \<le> max 0 (n - (i + 1))"
        "int (length new) < n - (i + 1) \<longrightarrow>
           suffixes_of (chain c) (String (drop (length new) ((tl p @ [nxt]) @ new))) = []"
        by auto
      have eq: "Generate_loop c rnd n i p words = Inr (words @ nxt # new)"
        using \<open>i < n\<close> False sh new(1)
        by (subst Generate_loop.simps) (simp add: choices_def[symmetric] nxt_def[symmetric] Let_def)
      have dr: "drop (length (nxt # new)) (p @ nxt # new) = drop (length new) ((tl p @ [nxt]) @ new)"
        using "1.prems" by (cases p) simp_all
      show ?thesis
        using eq new(2,3) \<open>i < n\<close> unfolding dr[symmetric]
        by (intro exI[of _ "nxt # new"]) auto
    qed
  qed
qed

subsection \<open>The sum of the counts\<close>

lemma wrap_id: "MinInt \<le> x \<Longrightarrow> x \<le> MaxInt \<Longrightarrow> wrap x = x"
  by (simp add: wrap_def MinInt_def MaxInt_def)

lemma prefix_count_empty [simp]: "prefix_count Map.empty = 0"
  by (simp add: prefix_count_def)

lemma total_count_empty [simp]: "total_count Map.empty = 0"
  by (simp add: total_count_def)

lemma prefix_count_upd:
  assumes "finite (dom val)"
  shows "prefix_count (val(s \<mapsto> v)) = prefix_count val - count_of val s + v"
proof -
  let ?D = "dom val - {s}"
  have fin: "finite ?D" using assms by simp
  have "dom (val(s \<mapsto> v)) = insert s ?D" by auto
  then have "prefix_count (val(s \<mapsto> v)) = (\<Sum>t\<in>insert s ?D. count_of (val(s \<mapsto> v)) t)"
    by (simp only: prefix_count_def)
  also have "\<dots> = count_of (val(s \<mapsto> v)) s + (\<Sum>t\<in>?D. count_of (val(s \<mapsto> v)) t)"
    using fin by (intro sum.insert) auto
  also have "count_of (val(s \<mapsto> v)) s = v"
    by (simp add: count_of_def)
  also have "(\<Sum>t\<in>?D. count_of (val(s \<mapsto> v)) t) = (\<Sum>t\<in>?D. count_of val t)"
    by (rule sum.cong) (auto simp: count_of_def)
  also have "(\<Sum>t\<in>?D. count_of val t) = prefix_count val - count_of val s"
  proof (cases "s \<in> dom val")
    case True
    then show ?thesis using assms by (simp add: prefix_count_def sum_diff1)
  next
    case False
    then have "count_of val s = 0" "?D = dom val" by (auto simp: count_of_def split: option.splits)
    then show ?thesis by (simp add: prefix_count_def)
  qed
  finally show ?thesis by (simp add: fun_upd_def)
qed

lemma total_count_upd:
  assumes "finite (dom ft)"
  shows "total_count (ft(key \<mapsto> val)) = total_count ft - prefix_count (table_of ft key) + prefix_count val"
proof -
  let ?D = "dom ft - {key}"
  have fin: "finite ?D" using assms by simp
  have "dom (ft(key \<mapsto> val)) = insert key ?D" by auto
  then have "total_count (ft(key \<mapsto> val)) = (\<Sum>k\<in>insert key ?D. prefix_count (table_of (ft(key \<mapsto> val)) k))"
    by (simp only: total_count_def)
  also have "\<dots> = prefix_count (table_of (ft(key \<mapsto> val)) key)
      + (\<Sum>k\<in>?D. prefix_count (table_of (ft(key \<mapsto> val)) k))"
    using fin by (intro sum.insert) auto
  also have "table_of (ft(key \<mapsto> val)) key = val"
    by (simp add: table_of_def)
  also have "(\<Sum>k\<in>?D. prefix_count (table_of (ft(key \<mapsto> val)) k)) = (\<Sum>k\<in>?D. prefix_count (table_of ft k))"
    by (rule sum.cong) (auto simp: table_of_def)
  also have "(\<Sum>k\<in>?D. prefix_count (table_of ft k)) = total_count ft - prefix_count (table_of ft key)"
  proof (cases "key \<in> dom ft")
    case True
    then show ?thesis using assms by (simp add: total_count_def sum_diff1)
  next
    case False
    then have "table_of ft key = Map.empty" "?D = dom ft" by (auto simp: table_of_def split: option.splits)
    then show ?thesis by (simp add: total_count_def)
  qed
  finally show ?thesis by (simp add: fun_upd_def)
qed

lemma count_le_prefix_count:
  assumes "finite (dom val)" and "\<forall>s v. val s = Some v \<longrightarrow> 1 \<le> v"
  shows "0 \<le> count_of val s \<and> count_of val s \<le> prefix_count val"
proof -
  have nn: "0 \<le> count_of val t" for t
    using assms(2) by (auto simp: count_of_def split: option.splits) force
  show ?thesis
  proof (cases "s \<in> dom val")
    case True
    have "count_of val s \<le> (\<Sum>t\<in>dom val. count_of val t)"
      using assms(1) True nn by (intro member_le_sum) auto
    then show ?thesis using nn by (simp add: prefix_count_def)
  next
    case False
    then have "count_of val s = 0" by (auto simp: count_of_def split: option.splits)
    moreover have "0 \<le> prefix_count val" unfolding prefix_count_def by (intro sum_nonneg nn)
    ultimately show ?thesis by simp
  qed
qed

lemma prefix_count_le_total:
  assumes "counted ft" and "ft key = Some val"
  shows "prefix_count val \<le> total_count ft"
proof -
  have nn: "0 \<le> prefix_count (table_of ft k)" for k
  proof (cases "ft k")
    case None
    then show ?thesis by (simp add: table_of_def)
  next
    case (Some v)
    then have "finite (dom v)" "\<forall>s w. v s = Some w \<longrightarrow> 1 \<le> w"
      using assms(1) by (auto simp: counted_def)
    from count_le_prefix_count[OF this] have "0 \<le> prefix_count v" by (meson order_trans)
    with Some show ?thesis by (simp add: table_of_def)
  qed
  have "prefix_count (table_of ft key) \<le> (\<Sum>k\<in>dom ft. prefix_count (table_of ft k))"
    using assms nn by (intro member_le_sum) (auto simp: counted_def)
  then show ?thesis using assms(2) by (simp add: total_count_def table_of_def)
qed

lemma add_word_count:
  assumes "add_word (c, p) s = Inr (c', p')"
      and "counted (freqTable c)"
      and "total_count (freqTable c) < MaxInt"
  shows "counted (freqTable c') \<and> total_count (freqTable c') = total_count (freqTable c) + 1"
proof -
  let ?ft = "freqTable c" and ?key = "String p"
  have fin: "finite (dom ?ft)" using assms(2) by (simp add: counted_def)
  show ?thesis
  proof (cases "?ft ?key")
    case None
    then have ft': "freqTable c' = ?ft(?key \<mapsto> [s \<mapsto> 1])"
      using assms(1) by (auto simp: add_word_def Let_def split: sum.splits)
    have "prefix_count [s \<mapsto> 1] = 1"
      using prefix_count_upd[of Map.empty s 1] by (simp add: count_of_def)
    then have "total_count (freqTable c') = total_count ?ft + 1"
      using None by (simp add: ft' total_count_upd[OF fin] table_of_def)
    moreover have "counted (freqTable c')"
      using assms(2) by (auto simp: ft' counted_def)
    ultimately show ?thesis by simp
  next
    case (Some val)
    then have ft': "freqTable c' = ?ft(?key \<mapsto> val(s \<mapsto> wrap (count_of val s + 1)))"
      using assms(1) by (auto simp: add_word_def Let_def split: sum.splits)
    have v: "finite (dom val)" "\<forall>s v. val s = Some v \<longrightarrow> 1 \<le> v"
      using assms(2) Some by (auto simp: counted_def)
    have "count_of val s \<le> total_count ?ft" "0 \<le> count_of val s"
      using count_le_prefix_count[OF v, of s] prefix_count_le_total[OF assms(2) Some] by auto
    then have w: "wrap (count_of val s + 1) = count_of val s + 1"
      using assms(3) by (intro wrap_id) (auto simp: MinInt_def MaxInt_def)
    have "prefix_count (val(s \<mapsto> count_of val s + 1)) = prefix_count val + 1"
      by (simp add: prefix_count_upd[OF v(1)])
    then have "total_count (freqTable c') = total_count ?ft + 1"
      using Some by (simp add: ft' w total_count_upd[OF fin] table_of_def)
    moreover have "counted (freqTable c')"
      using assms(2) v \<open>0 \<le> count_of val s\<close> by (auto simp: ft' w counted_def)
    ultimately show ?thesis by simp
  qed
qed

lemma add_words_count:
  assumes "add_words (c, p) ws = Inr (c', p')"
      and "counted (freqTable c)"
      and "total_count (freqTable c) + int (length ws) \<le> MaxInt"
  shows "counted (freqTable c') \<and> total_count (freqTable c') = total_count (freqTable c) + int (length ws)"
  using assms
proof (induction ws arbitrary: c p)
  case Nil
  then show ?case by simp
next
  case (Cons s ws)
  from Cons.prems(1) obtain c1 p1 where
    s1: "add_word (c, p) s = Inr (c1, p1)" and r: "add_words (c1, p1) ws = Inr (c', p')"
    by (auto split: sum.splits)
  from add_word_count[OF s1 Cons.prems(2)] Cons.prems(3)
  have c1: "counted (freqTable c1)" "total_count (freqTable c1) = total_count (freqTable c) + 1"
    by auto
  from Cons.IH[OF r c1(1)] c1(2) Cons.prems(3) show ?case by simp
qed

lemma counted_NewChain: "counted (freqTable (NewChain k))"
  by (simp add: counted_def NewChain_def)

subsection \<open>Scanning bytes below 128\<close>

lemma scan_words_ascii:
  "of_char b < (0x80::nat) \<Longrightarrow> scan_words (b # bs) cur =
     (if isSpace (of_char b)
      then (if cur = [] then scan_words bs []
            else if length cur + 1 \<le> MaxScanTokenSize then cur # scan_words bs [] else [])
      else scan_words bs (cur @ [b]))"
  by (simp add: DecodeRune_ascii)

lemma fscan_words_ascii:
  "of_char b < (0x80::nat) \<Longrightarrow> n < hugeWid \<Longrightarrow> fscan_words (b # bs) cur n =
     (if isSpace (of_char b)
      then (if cur = [] then fscan_words bs [] (n + 1) else cur # fscan_words bs [] 1)
      else fscan_words bs (cur @ [b]) (n + 1))"
  by (simp add: DecodeRune_ascii rune_bytes_def RuneError_def)

lemma add_word_Cons:
  "add_word (c, x # xs) s =
     Inr (c\<lparr>chain := (chain c)(String (x # xs) \<mapsto> suffixes_of (chain c) (String (x # xs)) @ [s]),
            freqTable := (case freqTable c (String (x # xs)) of
                  Some val \<Rightarrow> (freqTable c)(String (x # xs) \<mapsto> val(s \<mapsto> wrap (count_of val s + 1)))
                | None \<Rightarrow> (freqTable c)(String (x # xs) \<mapsto> [s \<mapsto> 1]))\<rparr>, xs @ [s])"
  by (simp add: add_word_def Shift_Cons Let_def)

subsection \<open>Itoa and Atoi\<close>

lemma digit_char_cases:
  "d < 10 \<Longrightarrow> d = 0 \<or> d = 1 \<or> d = 2 \<or> d = 3 \<or> d = 4 \<or> d = 5 \<or> d = 6 \<or> d = 7 \<or> d = 8 \<or> d = (9::nat)"
  by arith

lemma of_char_digit_char: "d < 10 \<Longrightarrow> of_char (digit_char d) = 48 + d"
  using digit_char_cases[of d] by (auto simp: digit_char_def)

lemma digits_value_snoc: "digits_value (ds @ [c]) = digits_value ds * 10 + (of_char c - 48)"
  by (simp add: digits_value_def)

lemma digits_value_nat_digits: "digits_value (nat_digits n) = n"
proof (induction n rule: nat_digits.induct)
  case (1 n)
  show ?case
  proof (cases "n < 10")
    case True
    then show ?thesis
      by (subst nat_digits.simps) (simp add: digits_value_def of_char_digit_char)
  next
    case False
    with 1 have "digits_value (nat_digits (n div 10)) = n div 10" by simp
    with False show ?thesis
      by (subst nat_digits.simps) (simp add: digits_value_snoc of_char_digit_char)
  qed
qed

lemma is_digit_iff: "is_digit c \<longleftrightarrow> 48 \<le> (of_char c :: nat) \<and> (of_char c :: nat) \<le> 57"
  by (simp add: is_digit_def less_eq_char_def)

lemma is_digit_not_sign: "is_digit c \<Longrightarrow> c \<noteq> CHR ''-'' \<and> c \<noteq> CHR ''+''"
  by (auto simp: is_digit_iff)

lemma Atoi_digits:
  assumes "ds \<noteq> []" and "list_all is_digit ds"
  shows "Atoi ds = (if MaxInt < int (digits_value ds) then Inl ErrRange else Inr (int (digits_value ds)))"
proof -
  obtain d ds' where ds: "ds = d # ds'" using assms(1) by (cases ds) auto
  then have "is_digit d" using assms(2) by simp
  then have "d \<noteq> CHR ''-''" "d \<noteq> CHR ''+''" using is_digit_not_sign by auto
  moreover have "\<not> int (digits_value ds) < MinInt" by (simp add: MinInt_def)
  ultimately show ?thesis
    using assms(2) unfolding Atoi_def ds[symmetric] by (simp add: ds Let_def)
qed

lemma Atoi_minus_digits:
  assumes "ds \<noteq> []" and "list_all is_digit ds"
  shows "Atoi (CHR ''-'' # ds) =
    (if - int (digits_value ds) < MinInt then Inl ErrRange else Inr (- int (digits_value ds)))"
proof -
  have "\<not> MaxInt < - int (digits_value ds)" by (simp add: MaxInt_def)
  then show ?thesis
    using assms unfolding Atoi_def by (simp add: Let_def)
qed

lemma is_digit_digit_char: "d < 10 \<Longrightarrow> is_digit (digit_char d)"
  by (simp add: is_digit_iff of_char_digit_char)

lemma nat_digits_digits: "list_all is_digit (nat_digits n)"
proof (induction n rule: nat_digits.induct)
  case (1 n)
  then show ?case by (subst nat_digits.simps) (simp add: is_digit_digit_char)
qed

lemma nat_digits_not_Nil: "nat_digits n \<noteq> []"
  by (subst nat_digits.simps) simp

lemma Atoi_Itoa:
  assumes "MinInt \<le> i" and "i \<le> MaxInt"
  shows "Atoi (Itoa i) = Inr i"
proof (cases "i < 0")
  case True
  have "Atoi (Itoa i) = Atoi (CHR ''-'' # nat_digits (nat (- i)))"
    using True by (simp add: Itoa_def)
  also have "\<dots> = Inr (- int (nat (- i)))"
    using assms(1) True
    by (simp add: Atoi_minus_digits[OF nat_digits_not_Nil nat_digits_digits] digits_value_nat_digits)
  finally show ?thesis using True by simp
next
  case False
  have "Atoi (Itoa i) = Atoi (nat_digits (nat i))"
    using False by (simp add: Itoa_def)
  also have "\<dots> = Inr (int (nat i))"
    using assms(2) False
    by (simp add: Atoi_digits[OF nat_digits_not_Nil nat_digits_digits] digits_value_nat_digits)
  finally show ?thesis using False by simp
qed

lemma is_digit_plain: "is_digit c \<Longrightarrow> c \<noteq> CHR '' '' \<and> c \<noteq> LF \<and> c \<noteq> CR"
  by (auto simp: is_digit_iff LF_def CR_def)

lemma Itoa_chars: "c \<in> set (Itoa i) \<Longrightarrow> c \<noteq> CHR '' '' \<and> c \<noteq> LF \<and> c \<noteq> CR"
proof -
  assume c: "c \<in> set (Itoa i)"
  have d: "x \<in> set (nat_digits n) \<Longrightarrow> is_digit x" for x n
    using nat_digits_digits[of n] by (simp add: list_all_iff)
  from c have "c = CHR ''-'' \<or> is_digit c"
    by (auto simp: Itoa_def dest: d split: if_splits)
  then show ?thesis using is_digit_plain[of c] by (auto simp: LF_def CR_def)
qed

lemma Itoa_not_Nil: "Itoa i \<noteq> []"
  by (simp add: Itoa_def nat_digits_not_Nil)

subsection \<open>Join and Split\<close>

lemma Join_Cons: "fs \<noteq> [] \<Longrightarrow> Join (f # fs) sep = f @ sep @ Join fs sep"
  by (cases fs) simp_all

lemma Join_append: "xs \<noteq> [] \<Longrightarrow> ys \<noteq> [] \<Longrightarrow> Join (xs @ ys) sep = Join xs sep @ sep @ Join ys sep"
proof (induction xs)
  case Nil
  then show ?case by simp
next
  case (Cons x xs)
  then show ?case by (cases "xs = []") (simp_all add: Join_Cons)
qed

lemma Split_append_sep: "sep \<notin> set a \<Longrightarrow> Split (a @ sep # b) sep = a # Split b sep"
  by (induction a) (auto split: list.splits)

lemma Split_Join:
  "fs \<noteq> [] \<Longrightarrow> \<forall>f\<in>set fs. sep \<notin> set f \<Longrightarrow> Split (Join fs [sep]) sep = fs"
proof (induction fs)
  case Nil
  then show ?case by simp
next
  case (Cons f fs)
  show ?case
  proof (cases "fs = []")
    case True
    with Cons.prems show ?thesis by (simp add: Split_no_sep)
  next
    case False
    with Cons show ?thesis by (simp add: Join_Cons Split_append_sep)
  qed
qed

lemma set_Join: "c \<in> set (Join fs sep) \<Longrightarrow> c \<in> set sep \<or> (\<exists>f\<in>set fs. c \<in> set f)"
  by (induction fs sep rule: Join.induct) auto

subsection \<open>The loops over the fields of a line\<close>

lemma prefix_items_take:
  "0 \<le> i \<Longrightarrow> n \<le> int (length items) \<Longrightarrow>
     prefix_items items n i p = Inr (p @ take (nat n - nat i) (drop (nat i) items))"
proof (induction items n i p rule: prefix_items.induct)
  case (1 items n i p)
  show ?case
  proof (cases "i < n")
    case False
    then show ?thesis using "1.prems" by (subst prefix_items.simps) simp
  next
    case True
    then have lt: "nat i < length items" using "1.prems" by simp
    have x: "index items i = Inr (items ! nat i)"
      using True "1.prems" by (simp add: index_def)
    have "prefix_items items n (i + 1) (p @ [items ! nat i]) =
            Inr ((p @ [items ! nat i]) @ take (nat n - nat (i + 1)) (drop (nat (i + 1)) items))"
      using "1.IH"[OF True x] "1.prems" by simp
    moreover have "take (nat n - nat i) (drop (nat i) items) =
        items ! nat i # take (nat n - nat (i + 1)) (drop (nat (i + 1)) items)"
    proof -
      have "nat n - nat i = Suc (nat n - nat (i + 1))" "nat (i + 1) = Suc (nat i)"
        using True "1.prems" by auto
      then show ?thesis using lt by (simp add: Cons_nth_drop_Suc[symmetric])
    qed
    ultimately show ?thesis using True x by (subst prefix_items.simps) simp
  qed
qed

lemma suffix_items_pairs:
  "suffix_items (pre @ flat ps) (int (length pre)) val =
     (if list_all (\<lambda>(s, f). parses f) ps
      then Inr (foldl (\<lambda>m (s, f). m(s \<mapsto> int_of f)) val ps)
      else Inl (Panic ''Could not convert string to integer''))"
proof (induction ps arbitrary: pre val)
  case Nil
  then show ?case by (subst suffix_items.simps) (simp add: flat_def)
next
  case (Cons a ps)
  obtain s f where a: "a = (s, f)" by (cases a)
  have items: "pre @ flat (a # ps) = (pre @ [s, f]) @ flat ps"
    by (simp add: a flat_def)
  have i0: "index (pre @ flat (a # ps)) (int (length pre)) = Inr s"
    by (simp add: index_def a flat_def nth_append)
  have i1: "index (pre @ flat (a # ps)) (int (length pre) + 1) = Inr f"
    by (simp add: index_def a flat_def nth_append nat_add_distrib)
  have lt: "int (length pre) < int (length (pre @ flat (a # ps)))"
    by (simp add: a flat_def)
  show ?case
  proof (cases "Atoi f")
    case (Inl err)
    then have "\<not> parses f" by (simp add: parses_def)
    then show ?thesis
      using Inl lt i1 by (subst suffix_items.simps) (simp add: a)
  next
    case (Inr v)
    then have p: "parses f" "int_of f = v" by (simp_all add: parses_def int_of_def)
    define val' where "val' = val(s \<mapsto> v)"
    have step: "suffix_items (pre @ flat (a # ps)) (int (length pre)) val =
            suffix_items ((pre @ [s, f]) @ flat ps) (int (length (pre @ [s, f]))) val'"
      using Inr lt i0 i1 unfolding val'_def
      by (subst suffix_items.simps) (simp add: items ac_simps)
    have fold: "foldl (\<lambda>m (s, f). m(s \<mapsto> int_of f)) val (a # ps) =
                foldl (\<lambda>m (s, f). m(s \<mapsto> int_of f)) val' ps"
      by (simp add: a p val'_def)
    have all: "list_all (\<lambda>(s, f). parses f) (a # ps) = list_all (\<lambda>(s, f). parses f) ps"
      by (simp add: a p)
    show ?thesis
      unfolding step fold all by (rule Cons.IH)
  qed
qed

lemma FreqFile_line_pairs:
  assumes "prefixLen c = int (length ws)"
      and "\<forall>w\<in>set ws. CHR '' '' \<notin> set w"
      and "\<forall>(s, f)\<in>set ps. CHR '' '' \<notin> set s \<and> CHR '' '' \<notin> set f"
      and "1 < length ws + 2 * length ps"
  shows "FreqFile_line c (Join (ws @ flat ps) '' '') =
     (if list_all (\<lambda>(s, f). parses f) ps
      then Inr (c\<lparr>freqTable := (freqTable c)(String ws \<mapsto> foldl (\<lambda>m (s, f). m(s \<mapsto> int_of f)) Map.empty ps)\<rparr>)
      else Inl (Panic ''Could not convert string to integer''))"
proof -
  let ?items = "ws @ flat ps"
  have len: "length ?items = length ws + 2 * length ps"
    by (induction ps) (auto simp: flat_def)
  have ne: "?items \<noteq> []" using assms(4) len by auto
  have nosp: "\<forall>f\<in>set ?items. CHR '' '' \<notin> set f"
    using assms(2,3) by (auto simp: flat_def)
  have split: "Split (Join ?items '' '') (CHR '' '') = ?items"
    using Split_Join[OF ne nosp] by simp
  have pre: "prefix_items ?items (prefixLen c) 0 [] = Inr ws"
    using prefix_items_take[of 0 "prefixLen c" ?items "[]"] assms(1) by simp
  have suf: "suffix_items ?items (prefixLen c) Map.empty =
     (if list_all (\<lambda>(s, f). parses f) ps
      then Inr (foldl (\<lambda>m (s, f). m(s \<mapsto> int_of f)) Map.empty ps)
      else Inl (Panic ''Could not convert string to integer''))"
    using suffix_items_pairs[of ws ps Map.empty] assms(1) by simp
  show ?thesis
    using assms(4) len
    by (simp add: FreqFile_line_def split pre suf Let_def)
qed

subsection \<open>The lines that a scanner delivers\<close>

lemma dropCR_id: "CR \<notin> set l \<Longrightarrow> dropCR l = l"
  by (cases "l = []") (auto simp: dropCR_def dest: last_in_set)

lemma scan_lines_line:
  "LF \<notin> set l \<Longrightarrow> scan_lines (l @ LF # rest) cur =
     (if length (cur @ l) < MaxScanTokenSize then dropCR (cur @ l) # scan_lines rest [] else [])"
  by (induction l arbitrary: cur) auto

lemma scan_lines_Fprintln:
  assumes "LF \<notin> set l" and "CR \<notin> set l"
  shows "scan_lines (Fprintln l @ rest) [] =
     (if length l < MaxScanTokenSize then l # scan_lines rest [] else [])"
  using scan_lines_line[OF assms(1), of rest "[]"] assms(2)
  by (simp add: Fprintln_def dropCR_id)

lemma Scanner_lines_Fprintln:
  "\<forall>l\<in>set ls. LF \<notin> set l \<and> CR \<notin> set l \<and> length l < MaxScanTokenSize \<Longrightarrow>
     Scanner_lines (concat (map Fprintln ls)) = ls"
  unfolding Scanner_lines_def
  by (induction ls) (simp_all add: scan_lines_Fprintln)

lemma Scanner_lines_too_long:
  assumes "\<forall>l\<in>set ls. LF \<notin> set l \<and> CR \<notin> set l \<and> length l < MaxScanTokenSize"
      and "LF \<notin> set l'" and "CR \<notin> set l'" and "\<not> length l' < MaxScanTokenSize"
  shows "Scanner_lines (concat (map Fprintln (ls @ l' # rest))) = ls"
  using assms unfolding Scanner_lines_def
  by (induction ls) (simp_all add: scan_lines_Fprintln)

subsection \<open>The words of an input are fields\<close>

lemma plain_high: "(0x80::nat) \<le> of_char x \<Longrightarrow> plain x"
  by (auto simp: plain_def LF_def CR_def)

lemma DecodeRune_nonspace:
  assumes "DecodeRune (b # bs) = (r, w)" and "\<not> isSpace r" and "x \<in> set (take w (b # bs))"
  shows "plain x"
proof (cases "of_char b < (0x80::nat)")
  case True
  with assms(1) have rw: "r = of_char b" "w = 1" by (simp_all add: DecodeRune_ascii)
  with assms(3) have "x = b" by simp
  then show ?thesis
    using assms(2) rw by (auto simp: plain_def isSpace_def LF_def CR_def)
next
  case False
  show ?thesis
  proof (cases "1 < w")
    case True
    from DecodeRune_multi[OF assms(1) True assms(3)] show ?thesis by (rule plain_high)
  next
    case w: False
    with DecodeRune_width[OF assms(1)] have "w = 1" by simp
    with assms(3) have "x = b" by simp
    with False show ?thesis by (simp add: plain_high)
  qed
qed

lemma scan_words_plain:
  "t \<in> set (scan_words bs cur) \<Longrightarrow> \<forall>x\<in>set cur. plain x \<Longrightarrow> t \<noteq> [] \<and> (\<forall>x\<in>set t. plain x)"
proof (induction bs cur rule: scan_words.induct)
  case (1 cur)
  then show ?case by (auto split: if_splits)
next
  case (2 b bs cur)
  obtain r w where d: "DecodeRune (b # bs) = (r, w)" by (cases "DecodeRune (b # bs)")
  show ?case
  proof (cases "isSpace r")
    case True
    show ?thesis
    proof (cases "cur = []")
      case c: True
      with "2.prems"(1) d True have "t \<in> set (scan_words (drop w (b # bs)) [])" by simp
      from "2.IH"(1)[OF d[symmetric] True c this] show ?thesis by simp
    next
      case c: False
      with "2.prems"(1) d True have "t = cur \<or> t \<in> set (scan_words (drop w (b # bs)) [])"
        by (simp split: if_splits)
      then show ?thesis
      proof
        assume "t = cur"
        with c "2.prems"(2) show ?thesis by simp
      next
        assume t: "t \<in> set (scan_words (drop w (b # bs)) [])"
        then have "length cur + w \<le> MaxScanTokenSize"
          using "2.prems"(1) d True c by (simp split: if_splits)
        from "2.IH"(2)[OF d[symmetric] True c this t] show ?thesis by simp
      qed
    qed
  next
    case False
    with "2.prems" d have t: "t \<in> set (scan_words (drop w (b # bs)) (cur @ take w (b # bs)))"
      by simp
    have "\<forall>x\<in>set (cur @ take w (b # bs)). plain x"
      using "2.prems"(2) DecodeRune_nonspace[OF d False] by auto
    from "2.IH"(3)[OF d[symmetric] False t this] show ?thesis .
  qed
qed

lemma fscan_words_plain:
  "t \<in> set (fscan_words bs cur n) \<Longrightarrow> \<forall>x\<in>set cur. plain x \<Longrightarrow> t \<noteq> [] \<and> (\<forall>x\<in>set t. plain x)"
proof (induction bs cur n rule: fscan_words.induct)
  case (1 cur n)
  then show ?case by (auto split: if_splits)
next
  case (2 b bs cur n)
  obtain r w where d: "DecodeRune (b # bs) = (r, w)" by (cases "DecodeRune (b # bs)")
  show ?case
  proof (cases "hugeWid \<le> n")
    case lim: True
    show ?thesis
    proof (cases "cur = []")
      case True
      with "2.prems"(1) d lim show ?thesis by simp
    next
      case c: False
      with "2.prems"(1) d lim have "t = cur \<or> t \<in> set (fscan_words (b # bs) [] 0)"
        by simp
      then show ?thesis
      proof
        assume "t = cur"
        with c "2.prems"(2) show ?thesis by simp
      next
        assume t: "t \<in> set (fscan_words (b # bs) [] 0)"
        from "2.IH"(1)[OF d[symmetric] lim c t] show ?thesis by simp
      qed
    qed
  next
    case lim: False
    show ?thesis
    proof (cases "isSpace r")
      case True
      show ?thesis
      proof (cases "cur = []")
        case c: True
        with "2.prems"(1) d True lim have "t \<in> set (fscan_words (drop w (b # bs)) [] (n + 1))"
          by simp
        from "2.IH"(2)[OF d[symmetric] lim True c this] show ?thesis by simp
      next
        case c: False
        with "2.prems"(1) d True lim
        have "t = cur \<or> t \<in> set (fscan_words (drop w (b # bs)) [] 1)"
          by simp
        then show ?thesis
        proof
          assume "t = cur"
          with c "2.prems"(2) show ?thesis by simp
        next
          assume t: "t \<in> set (fscan_words (drop w (b # bs)) [] 1)"
          from "2.IH"(3)[OF d[symmetric] lim True c t] show ?thesis by simp
        qed
      qed
    next
      case False
      with "2.prems" d lim
      have t: "t \<in> set (fscan_words (drop w (b # bs)) (cur @ rune_bytes r w (b # bs)) (n + 1))"
        by simp
      have "\<forall>x\<in>set (rune_bytes r w (b # bs)). plain x"
        using DecodeRune_nonspace[OF d False] by (auto simp: rune_bytes_def plain_def LF_def CR_def)
      then have "\<forall>x\<in>set (cur @ rune_bytes r w (b # bs)). plain x"
        using "2.prems"(2) by auto
      from "2.IH"(4)[OF d[symmetric] lim False t this] show ?thesis .
    qed
  qed
qed

lemma field_ok_plain: "field_ok w \<longleftrightarrow> w \<noteq> [] \<and> (\<forall>x\<in>set w. plain x)"
  by (auto simp: field_ok_def plain_def)

lemma Scanner_words_field_ok: "t \<in> set (Scanner_words input) \<Longrightarrow> field_ok t"
  using scan_words_plain[of t input "[]"] by (simp add: Scanner_words_def field_ok_plain)

lemma Fscan_words_field_ok: "t \<in> set (Fscan_words input) \<Longrightarrow> field_ok t"
  using fscan_words_plain[of t input "[]" 0] by (simp add: Fscan_words_def field_ok_plain)

lemma field_ok_sentinel: "field_ok sentinel"
  by (simp add: field_ok_def sentinel_def LF_def CR_def)

subsection \<open>The tables that the program builds\<close>

lemma wrap_range: "MinInt \<le> wrap x \<and> wrap x \<le> MaxInt"
proof -
  have "0 \<le> (x + 2 ^ 63) mod 2 ^ 64" "(x + 2 ^ 63) mod 2 ^ 64 < (2 ^ 64 :: int)"
    by simp_all
  then show ?thesis by (simp add: wrap_def MinInt_def MaxInt_def)
qed

lemma String_Shift_fields:
  assumes "length p = k" and "0 < k" and "\<forall>w\<in>set p. field_ok w" and "field_ok s"
  shows "length (tl p @ [s]) = k \<and> (\<forall>w\<in>set (tl p @ [s]). field_ok w)"
  using assms by (cases p) auto

lemma add_word_built:
  assumes "add_word (c, p) s = Inr (c', p')"
      and "built k (freqTable c)" and "length p = k" and "0 < k"
      and "\<forall>w\<in>set p. field_ok w" and "field_ok s"
  shows "built k (freqTable c') \<and> length p' = k \<and> (\<forall>w\<in>set p'. field_ok w)
         \<and> prefixLen c' = prefixLen c"
proof -
  have pne: "p \<noteq> []" using assms(3,4) by auto
  have p': "p' = tl p @ [s]" and pl: "prefixLen c' = prefixLen c"
    using assms(1) pne by (auto simp: add_word_def Let_def Shift_nonempty)
  have key: "\<exists>ws. String p = String ws \<and> length ws = k \<and> (\<forall>w\<in>set ws. field_ok w)"
    using assms(3,5) by blast
  have one: "MinInt \<le> 1 \<and> (1::int) \<le> MaxInt" by (simp add: MinInt_def MaxInt_def)
  have b: "built k (freqTable c')"
  proof (cases "freqTable c (String p)")
    case None
    then have ft': "freqTable c' = (freqTable c)(String p \<mapsto> [s \<mapsto> 1])"
      using assms(1) by (auto simp: add_word_def Let_def split: sum.splits)
    show ?thesis
      unfolding built_def ft'
      using assms(2,6) key one by (auto simp: built_def)
  next
    case (Some val)
    then have ft': "freqTable c' = (freqTable c)(String p \<mapsto> val(s \<mapsto> wrap (count_of val s + 1)))"
      using assms(1) by (auto simp: add_word_def Let_def split: sum.splits)
    have v: "finite (dom val)" "\<forall>t v. val t = Some v \<longrightarrow> field_ok t \<and> MinInt \<le> v \<and> v \<le> MaxInt"
      using assms(2) Some by (auto simp: built_def)
    show ?thesis
      unfolding built_def ft'
      using assms(2,6) key v wrap_range[of "count_of val s + 1"]
      by (auto simp: built_def)
  qed
  from String_Shift_fields[OF assms(3,4,5,6)] b p' pl show ?thesis by simp
qed

lemma add_words_built:
  assumes "add_words (c, p) ws = Inr (c', p')"
      and "built k (freqTable c)" and "length p = k" and "0 < k"
      and "\<forall>w\<in>set p. field_ok w" and "\<forall>s\<in>set ws. field_ok s"
  shows "built k (freqTable c') \<and> prefixLen c' = prefixLen c"
  using assms
proof (induction ws arbitrary: c p)
  case Nil
  then show ?case by simp
next
  case (Cons s ws)
  from Cons.prems(1) obtain c1 p1 where
    s1: "add_word (c, p) s = Inr (c1, p1)" and r: "add_words (c1, p1) ws = Inr (c', p')"
    by (auto split: sum.splits)
  from add_word_built[OF s1 Cons.prems(2,3,4,5)] Cons.prems(6)
  have c1: "built k (freqTable c1)" "length p1 = k" "\<forall>w\<in>set p1. field_ok w"
    "prefixLen c1 = prefixLen c" by auto
  from Cons.IH[OF r c1(1,2) Cons.prems(4) c1(3)] Cons.prems(6) c1(4) show ?case by simp
qed

lemma built_NewChain: "built k (freqTable (NewChain n))"
  by (simp add: built_def NewChain_def)

lemma FileToFreqTable_built:
  assumes "FileToFreqTable c file = Inr c'"
      and "built (nat (prefixLen c)) (freqTable c)" and "1 \<le> prefixLen c"
  shows "built (nat (prefixLen c)) (freqTable c') \<and> prefixLen c' = prefixLen c"
proof -
  from assms(1) obtain content where some: "file = Some content"
    by (cases "file") (auto simp: FileToFreqTable_def)
  let ?p = "replicate (nat (prefixLen c)) sentinel"
  from assms(1,3) some obtain p' where
    r: "add_words (c, ?p) (Scanner_words content) = Inr (c', p')"
    by (auto simp: FileToFreqTable_def startPrefix_def split: sum.splits if_splits)
  show ?thesis
    using add_words_built[OF r assms(2)] assms(3)
    by (simp add: field_ok_sentinel Scanner_words_field_ok)
qed

lemma Build_built:
  assumes "Build c input = Inr c'"
      and "built (nat (prefixLen c)) (freqTable c)" and "1 \<le> prefixLen c"
  shows "built (nat (prefixLen c)) (freqTable c') \<and> prefixLen c' = prefixLen c"
proof -
  let ?p = "replicate (nat (prefixLen c)) sentinel"
  from assms(1,3) obtain p' where
    r: "add_words (c, ?p) (Fscan_words input) = Inr (c', p')"
    by (auto simp: Build_def startPrefix_def split: sum.splits if_splits)
  show ?thesis
    using add_words_built[OF r assms(2)] assms(3)
    by (simp add: field_ok_sentinel Fscan_words_field_ok)
qed

subsection \<open>The lines of the encoded table\<close>

lemma length_nat_digits: "0 < d \<Longrightarrow> n < 10 ^ d \<Longrightarrow> length (nat_digits n) \<le> d"
proof (induction d arbitrary: n)
  case 0
  then show ?case by simp
next
  case (Suc d)
  show ?case
  proof (cases "n < 10")
    case True
    then show ?thesis by (subst nat_digits.simps) simp
  next
    case False
    then have d: "0 < d" using Suc.prems(2) by (cases d) auto
    have "n div 10 < 10 ^ d" using Suc.prems(2) by (simp add: less_mult_imp_div_less mult.commute)
    from Suc.IH[OF d this] False show ?thesis by (subst nat_digits.simps) simp
  qed
qed

lemma length_Itoa:
  assumes "MinInt \<le> i" and "i \<le> MaxInt"
  shows "length (Itoa i) < MaxScanTokenSize"
proof -
  have "nat i < 10 ^ 19" "nat (- i) < 10 ^ 19"
    using assms by (simp_all add: MinInt_def MaxInt_def)
  then have "length (nat_digits (nat i)) \<le> 19" "length (nat_digits (nat (- i))) \<le> 19"
    by (simp_all add: length_nat_digits)
  then show ?thesis by (simp add: Itoa_def MaxScanTokenSize_def)
qed

lemma sufCount_of_flat:
  "sufCount_of val ks2 = flat (map (\<lambda>s. (s, Itoa (count_of val s))) ks2)"
  by (simp add: sufCount_of_def flat_def foldl_append_concat comp_def)

lemma int_of_Itoa: "MinInt \<le> v \<Longrightarrow> v \<le> MaxInt \<Longrightarrow> parses (Itoa v) \<and> int_of (Itoa v) = v"
  by (simp add: parses_def int_of_def Atoi_Itoa)

lemma foldl_upd_lookup:
  "foldl (\<lambda>m (s, f). m(s \<mapsto> g f)) m0 (map (\<lambda>s. (s, h s)) ks) x =
     (if x \<in> set ks then Some (g (h x)) else m0 x)"
  by (induction ks arbitrary: m0) auto

lemma foldl_upd_restore:
  assumes "set ks = dom val" and "\<forall>s v. val s = Some v \<longrightarrow> MinInt \<le> v \<and> v \<le> MaxInt"
  shows "foldl (\<lambda>m (s, f). m(s \<mapsto> int_of f)) Map.empty (map (\<lambda>s. (s, Itoa (count_of val s))) ks) = val"
proof
  fix x
  show "foldl (\<lambda>m (s, f). m(s \<mapsto> int_of f)) Map.empty (map (\<lambda>s. (s, Itoa (count_of val s))) ks) x = val x"
  proof (cases "val x")
    case None
    then have "x \<notin> set ks" using assms(1) by auto
    with None show ?thesis by (simp add: foldl_upd_lookup)
  next
    case (Some v)
    then have "x \<in> set ks" "count_of val x = v" "MinInt \<le> v" "v \<le> MaxInt"
      using assms by (auto simp: count_of_def)
    with Some show ?thesis by (simp add: foldl_upd_lookup int_of_Itoa)
  qed
qed

text \<open>What the line of a key of a built table is made of.\<close>

lemma table_line_fields:
  assumes "built k (freqTable c)" and "0 < k"
      and "freqTable c key = Some val" and "range_order val ks2"
      and "ord key = ks2"
  shows "\<exists>ws. key = String ws \<and> length ws = k \<and> (\<forall>w\<in>set ws. field_ok w)
           \<and> table_line c ord key = Join (ws @ flat (map (\<lambda>s. (s, Itoa (count_of val s))) ks2)) '' ''
           \<and> ks2 \<noteq> []"
proof -
  have "\<exists>ws. key = String ws \<and> length ws = k \<and> (\<forall>w\<in>set ws. field_ok w)"
    and ne: "val \<noteq> Map.empty"
    using assms(1,3) unfolding built_def by blast+
  then obtain ws where ws: "key = String ws" "length ws = k" "\<forall>w\<in>set ws. field_ok w"
    by blast
  have k2: "ks2 \<noteq> []"
    using ne assms(4) by (metis range_order_def empty_set dom_eq_empty_conv)
  then have fl: "flat (map (\<lambda>s. (s, Itoa (count_of val s))) ks2) \<noteq> []"
    by (cases ks2) (auto simp: flat_def)
  have wsne: "ws \<noteq> []" using ws(2) assms(2) by auto
  have "table_line c ord key =
          Join ws '' '' @ '' '' @ Join (flat (map (\<lambda>s. (s, Itoa (count_of val s))) ks2)) '' ''"
    using assms(3,5) ws(1) by (simp add: table_line_def table_of_def sufCount_of_flat String_def)
  also have "\<dots> = Join (ws @ flat (map (\<lambda>s. (s, Itoa (count_of val s))) ks2)) '' ''"
    using Join_append[OF wsne fl, of "'' ''"] by simp
  finally show ?thesis using ws k2 by blast
qed

lemma table_line_plain:
  assumes "built k (freqTable c)" and "0 < k"
      and "freqTable c key = Some val" and "range_order val (ord key)"
  shows "LF \<notin> set (table_line c ord key) \<and> CR \<notin> set (table_line c ord key)"
proof -
  from table_line_fields[where ord = ord, OF assms(1,2,3,4) refl] obtain ws where
    ws: "\<forall>w\<in>set ws. field_ok w"
    and l: "table_line c ord key = Join (ws @ flat (map (\<lambda>s. (s, Itoa (count_of val s))) (ord key))) '' ''"
    by blast
  have dom: "set (ord key) = dom val" using assms(4) by (simp add: range_order_def)
  have sfx: "field_ok s" if "s \<in> set (ord key)" for s
    using that dom assms(1,3) by (auto simp: built_def)
  have fields: "LF \<notin> set f \<and> CR \<notin> set f"
    if "f \<in> set (ws @ flat (map (\<lambda>s. (s, Itoa (count_of val s))) (ord key)))" for f
    using that ws sfx Itoa_chars by (auto simp: flat_def field_ok_def)
  show ?thesis
    unfolding l using fields by (auto simp: LF_def CR_def dest!: set_Join)
qed

lemma FreqFile_line_table_line:
  assumes "built k (freqTable c)" and "0 < k"
      and "freqTable c key = Some val" and "range_order val (ord key)"
      and "prefixLen c1 = int k"
  shows "FreqFile_line c1 (table_line c ord key) = Inr (c1\<lparr>freqTable := (freqTable c1)(key \<mapsto> val)\<rparr>)"
proof -
  let ?ps = "map (\<lambda>s. (s, Itoa (count_of val s))) (ord key)"
  from table_line_fields[where ord = ord, OF assms(1,2,3,4) refl] obtain ws where
    ws: "key = String ws" "length ws = k" "\<forall>w\<in>set ws. field_ok w"
    and l: "table_line c ord key = Join (ws @ flat ?ps) '' ''"
    and ne: "ord key \<noteq> []"
    by blast
  have dom: "set (ord key) = dom val" using assms(4) by (simp add: range_order_def)
  have rng: "\<forall>s v. val s = Some v \<longrightarrow> MinInt \<le> v \<and> v \<le> MaxInt"
    and sfx: "\<forall>s\<in>set (ord key). field_ok s"
    using assms(1,3) dom by (auto simp: built_def)
  have cnt: "MinInt \<le> count_of val s \<and> count_of val s \<le> MaxInt" for s
    using rng by (auto simp: count_of_def MinInt_def MaxInt_def split: option.splits)
  have h1: "prefixLen c1 = int (length ws)" using assms(5) ws(2) by simp
  have h2: "\<forall>w\<in>set ws. CHR '' '' \<notin> set w" using ws(3) by (simp add: field_ok_def)
  have h3: "\<forall>(s, f)\<in>set ?ps. CHR '' '' \<notin> set s \<and> CHR '' '' \<notin> set f"
    using sfx Itoa_chars by (auto simp: field_ok_def)
  have h4: "1 < length ws + 2 * length ?ps"
    using ne ws(2) assms(2) by (cases "ord key") auto
  have all: "list_all (\<lambda>(s, f). parses f) ?ps"
    using cnt by (simp add: list_all_iff int_of_Itoa)
  show ?thesis
    unfolding l FreqFile_line_pairs[OF h1 h2 h3 h4]
    using all by (simp add: foldl_upd_restore[OF dom rng] ws(1)[symmetric])
qed

lemma FreqFile_lines_table_lines:
  assumes "built k (freqTable c)" and "0 < k"
      and "\<forall>key\<in>set keys. key \<in> dom (freqTable c) \<and> range_order (table_of (freqTable c) key) (ord key)"
      and "prefixLen c1 = int k"
  shows "FreqFile_lines c1 (map (table_line c ord) keys) =
           Inr (c1\<lparr>freqTable := (\<lambda>x. if x \<in> set keys then freqTable c x else freqTable c1 x)\<rparr>)"
  using assms(3,4)
proof (induction keys arbitrary: c1)
  case Nil
  then show ?case by simp
next
  case (Cons key keys)
  from Cons.prems(1) obtain val where
    val: "freqTable c key = Some val" "range_order val (ord key)"
    by (auto simp: table_of_def)
  let ?c2 = "c1\<lparr>freqTable := (freqTable c1)(key \<mapsto> val)\<rparr>"
  have step: "FreqFile_line c1 (table_line c ord key) = Inr ?c2"
    by (rule FreqFile_line_table_line[where ord = ord, OF assms(1,2) val Cons.prems(2)])
  have "FreqFile_lines ?c2 (map (table_line c ord) keys) =
          Inr (?c2\<lparr>freqTable := (\<lambda>x. if x \<in> set keys then freqTable c x else freqTable ?c2 x)\<rparr>)"
    using Cons.IH[of ?c2] Cons.prems by simp
  moreover have "(\<lambda>x. if x \<in> set keys then freqTable c x else freqTable ?c2 x) =
        (\<lambda>x. if x \<in> set (key # keys) then freqTable c x else freqTable c1 x)"
    using val(1) by (auto simp: fun_eq_iff)
  ultimately show ?case using step by simp
qed

subsection \<open>Writing a built table and reading it again\<close>

lemma FreqTableToFile_lines:
  "FreqTableToFile c True ks ord =
     Inr (concat (map Fprintln (Itoa (prefixLen c) # map (table_line c ord) (sort ks))))"
  by (simp add: FreqTableToFile_def foldl_snoc[of "[]", simplified] foldl_append_concat comp_def)

lemma roundtrip:
  assumes b: "built k (freqTable c)" and k: "0 < k" and pl: "prefixLen c = int k"
      and rng: "int k \<le> MaxInt"
      and ks: "range_order (freqTable c) ks"
      and ord: "\<forall>key\<in>dom (freqTable c). range_order (table_of (freqTable c) key) (ord key)"
      and short: "\<forall>key\<in>dom (freqTable c). length (table_line c ord key) < MaxScanTokenSize"
  shows "\<exists>out. FreqTableToFile c True ks ord = Inr out
           \<and> FreqTableFromFreqFile (Some out) =
               Inr \<lparr>chain = Map.empty, prefixLen = prefixLen c, freqTable = freqTable c\<rparr>"
proof -
  let ?keys = "sort ks"
  let ?lines = "Itoa (int k) # map (table_line c ord) ?keys"
  let ?out = "concat (map Fprintln ?lines)"
  have keys: "set ?keys = dom (freqTable c)"
    using ks by (simp add: range_order_def)
  have krng: "MinInt \<le> int k" by (simp add: MinInt_def)
  have out: "FreqTableToFile c True ks ord = Inr ?out"
    by (simp add: FreqTableToFile_lines pl)
  have good: "\<forall>l\<in>set ?lines. LF \<notin> set l \<and> CR \<notin> set l \<and> length l < MaxScanTokenSize"
  proof
    fix l assume "l \<in> set ?lines"
    then consider "l = Itoa (int k)" | key where "key \<in> dom (freqTable c)" "l = table_line c ord key"
      using keys by auto
    then show "LF \<notin> set l \<and> CR \<notin> set l \<and> length l < MaxScanTokenSize"
    proof cases
      case 1
      then show ?thesis using Itoa_chars[of _ "int k"] length_Itoa[OF krng rng] by auto
    next
      case 2
      then obtain val where val: "freqTable c key = Some val" by auto
      with 2 ord have "range_order val (ord key)" by (force simp: table_of_def)
      from table_line_plain[where ord = ord, OF b k val this] 2 short show ?thesis by auto
    qed
  qed
  have lines: "Scanner_lines ?out = ?lines"
    by (rule Scanner_lines_Fprintln[OF good])
  let ?c1 = "(NewChain 0)\<lparr>prefixLen := int k\<rparr>"
  have "CHR '' '' \<notin> set (Itoa (int k))"
    using Itoa_chars[of "CHR '' ''" "int k"] by blast
  from FreqFile_line_single[OF this Itoa_not_Nil, of "NewChain 0"]
  have head: "FreqFile_line (NewChain 0) (Itoa (int k)) = Inr ?c1"
    by (simp add: Atoi_Itoa[OF krng rng])
  have "\<forall>key\<in>set ?keys. key \<in> dom (freqTable c) \<and> range_order (table_of (freqTable c) key) (ord key)"
    using keys ord by auto
  from FreqFile_lines_table_lines[where ord = ord, OF b k this, of ?c1]
  have data: "FreqFile_lines ?c1 (map (table_line c ord) ?keys) =
      Inr (?c1\<lparr>freqTable := (\<lambda>x. if x \<in> set ?keys then freqTable c x else freqTable ?c1 x)\<rparr>)"
    by simp
  have "(\<lambda>x. if x \<in> set ?keys then freqTable c x else freqTable ?c1 x) = freqTable c"
    using keys by (auto simp: fun_eq_iff NewChain_def)
  with data have "FreqFile_lines ?c1 (map (table_line c ord) ?keys) =
      Inr \<lparr>chain = Map.empty, prefixLen = prefixLen c, freqTable = freqTable c\<rparr>"
    by (simp add: NewChain_def pl)
  moreover have "FreqTableFromFreqFile (Some ?out) = FreqFile_lines (NewChain 0) ?lines"
    unfolding FreqTableFromFreqFile_def by (simp only: option.case lines)
  moreover have "FreqFile_lines (NewChain 0) ?lines = FreqFile_lines ?c1 (map (table_line c ord) ?keys)"
    by (simp add: head)
  ultimately have "FreqTableFromFreqFile (Some ?out) =
      Inr \<lparr>chain = Map.empty, prefixLen = prefixLen c, freqTable = freqTable c\<rparr>"
    by simp
  with out show ?thesis by blast
qed

lemma read_files_built:
  assumes "read_files c fs = Inr c'"
      and "built (nat (prefixLen c)) (freqTable c)" and "1 \<le> prefixLen c"
  shows "built (nat (prefixLen c)) (freqTable c') \<and> prefixLen c' = prefixLen c"
  using assms
proof (induction fs arbitrary: c)
  case Nil
  then show ?case by simp
next
  case (Cons f fs)
  from Cons.prems(1) obtain c1 where
    s1: "FileToFreqTable c f = Inr c1" and r: "read_files c1 fs = Inr c'"
    by (auto split: sum.splits)
  from FileToFreqTable_built[OF s1 Cons.prems(2,3)]
  have c1: "built (nat (prefixLen c)) (freqTable c1)" "prefixLen c1 = prefixLen c" by auto
  from Cons.IH[OF r] c1 Cons.prems(3) show ?case by simp
qed

subsection \<open>A line of the table that is longer than a token of the scanner\<close>

text \<open>
  The words of \<^verbatim>\<open>long_word\<close>, the table of two of them, the file written for it and what
  \<^verbatim>\<open>FreqTableFromFreqFile\<close> reads of this file.
\<close>

lemma scan_words_word:
  "\<forall>x\<in>set w. of_char x < (0x80::nat) \<and> \<not> isSpace (of_char x) \<Longrightarrow>
     scan_words (w @ rest) cur = scan_words rest (cur @ w)"
  by (induction w arbitrary: cur) (simp_all add: scan_words_ascii del: scan_words.simps(2))

lemma long_word_length: "length long_word = 40000"
  by (simp add: long_word_def)

lemma long_word_set: "set long_word = {CHR ''a''}"
  by (simp add: long_word_def)

lemma long_word_sentinel: "long_word \<noteq> sentinel" "sentinel \<noteq> long_word"
proof -
  have "length long_word \<noteq> length sentinel"
    by (simp add: long_word_length sentinel_def)
  then show "long_word \<noteq> sentinel" "sentinel \<noteq> long_word" by auto
qed

lemma long_word_not_Nil: "long_word \<noteq> []"
  by (simp add: long_word_def)

lemma long_word_Cons: "long_word = CHR ''a'' # replicate 39999 (CHR ''a'')"
proof -
  have "replicate (Suc 39999) (CHR ''a'') = CHR ''a'' # replicate 39999 (CHR ''a'')"
    by (rule replicate_Suc)
  moreover have "Suc 39999 = 40000" by simp
  ultimately show ?thesis unfolding long_word_def by (simp only:)
qed

lemma sentinel_le_long_word: "sentinel \<le> long_word"
  by (subst long_word_Cons) (simp add: sentinel_def less_char_def)

lemma Scanner_words_long: "Scanner_words (long_word @ '' '' @ long_word) = [long_word, long_word]"
proof -
  have w: "\<forall>x\<in>set long_word. of_char x < (0x80::nat) \<and> \<not> isSpace (of_char x)"
    by (simp add: long_word_set isSpace_def)
  have "scan_words (long_word @ '' '' @ long_word) [] = scan_words ('' '' @ long_word) long_word"
    using scan_words_word[OF w, of "'' '' @ long_word" "[]"] by simp
  also have "\<dots> = long_word # scan_words (long_word @ []) []"
    by (simp add: scan_words_ascii isSpace_def long_word_length MaxScanTokenSize_def long_word_not_Nil
        del: scan_words.simps(2))
  also have "scan_words (long_word @ []) [] = scan_words [] long_word"
    using scan_words_word[OF w, of "[]" "[]"] by simp
  also have "\<dots> = [long_word]"
    by (simp add: long_word_length long_word_not_Nil MaxScanTokenSize_def)
  finally show ?thesis by (simp add: Scanner_words_def)
qed

lemma FileToFreqTable_long:
  "FileToFreqTable (NewChain 1) (Some (long_word @ '' '' @ long_word)) = Inr long_chain"
  using Scanner_words_long
  by (simp add: FileToFreqTable_def startPrefix_def maxAlloc_def stringSize_def NewChain_def add_word_Cons
      String_def long_word_sentinel long_chain_def suffixes_of_def count_of_def)

lemma sort_long: "sort [sentinel, long_word] = [sentinel, long_word]"
  by (simp add: sentinel_le_long_word)

lemma Itoa_1: "Itoa 1 = ''1''"
  by (simp add: eval_defs)

lemma FreqTableToFile_long:
  "FreqTableToFile long_chain True [sentinel, long_word] (\<lambda>key. [long_word]) = Inr long_file"
  unfolding FreqTableToFile_lines sort_long
  by (simp add: long_chain_def long_file_def table_line_def sufCount_of_def table_of_def
      count_of_def long_word_sentinel Itoa_1)

lemma Scanner_lines_long:
  "Scanner_lines long_file = [''1'', sentinel @ '' '' @ long_word @ '' 1'']"
proof -
  have "Scanner_lines (concat (map Fprintln
          ([''1'', sentinel @ '' '' @ long_word @ '' 1''] @ (long_word @ '' '' @ long_word @ '' 1'') # []))) =
        [''1'', sentinel @ '' '' @ long_word @ '' 1'']"
    by (rule Scanner_lines_too_long)
       (simp_all add: long_word_set long_word_length sentinel_def LF_def CR_def MaxScanTokenSize_def)
  then show ?thesis by (simp add: long_file_def)
qed

lemma FreqFile_lines_long:
  "FreqFile_lines (NewChain 0) [''1'', sentinel @ '' '' @ long_word @ '' 1''] =
     Inr \<lparr>chain = Map.empty, prefixLen = 1, freqTable = [sentinel \<mapsto> [long_word \<mapsto> 1]]\<rparr>"
proof -
  have h: "FreqFile_line (NewChain 0) ''1'' = Inr (NewChain 1)"
    by (simp add: eval_defs)
  have p: "parses ''1''" "int_of ''1'' = 1"
    by (simp_all add: eval_defs)
  have "FreqFile_line (NewChain 1) (Join ([sentinel] @ flat [(long_word, ''1'')]) '' '') =
     (if list_all (\<lambda>(s, f). parses f) [(long_word, ''1'')]
      then Inr ((NewChain 1)\<lparr>freqTable := (freqTable (NewChain 1))(String [sentinel] \<mapsto>
                  foldl (\<lambda>m (s, f). m(s \<mapsto> int_of f)) Map.empty [(long_word, ''1'')])\<rparr>)
      else Inl (Panic ''Could not convert string to integer''))"
    by (rule FreqFile_line_pairs) (simp_all add: NewChain_def sentinel_def long_word_set)
  then have "FreqFile_line (NewChain 1) (sentinel @ '' '' @ long_word @ '' 1'') =
      Inr \<lparr>chain = Map.empty, prefixLen = 1, freqTable = [sentinel \<mapsto> [long_word \<mapsto> 1]]\<rparr>"
    by (simp add: p flat_def String_def NewChain_def)
  with h show ?thesis by simp
qed

subsection \<open>What the program refuses\<close>

lemma main_read_prefixLen:
  assumes "4 \<le> length args" and "args ! 1 = ''read''" and "Atoi (args ! 2) = Inr k" and "k < 1"
  shows "main args files ch = Inl (Panic ''Prefix length must be greater than 0'')"
  using assms by (simp add: main_def)

lemma main_generate_words:
  assumes "4 \<le> length args" and "args ! 1 = ''generate''" and "Atoi (args ! 3) = Inr n" and "n < 0"
  shows "main args files ch = Inl (Panic ''Number of words must be positive'')"
  using assms by (simp add: main_def)

lemma main_read:
  assumes "4 \<le> length args" and "args ! 1 = ''read''" and "Atoi (args ! 2) = Inr k" and "1 \<le> k"
      and "read_files (NewChain k) (map files (drop 4 args)) = Inr c"
  shows "main args files ch =
     (case FreqTableToFile c (created ch) (prefix_order ch) (suffix_order ch) of
        Inl e \<Rightarrow> Inl e
      | Inr out \<Rightarrow> Inr (files(args ! 3 \<mapsto> out), []))"
  using assms by (simp add: main_def)


subsection \<open>The readers of the program and the token stream of the specification\<close>

lemma runs_split:
  "runs sep xs =
     (if takeWhile (\<lambda>y. \<not> sep y) xs = [] then [] else [takeWhile (\<lambda>y. \<not> sep y) xs])
     @ runs sep (dropWhile (\<lambda>y. \<not> sep y) xs)"
  by (cases xs) auto

lemma concat_map_Nil:
  "\<forall>x\<in>set xs. f x \<noteq> [] \<Longrightarrow> concat (map f xs) = [] \<longleftrightarrow> xs = []"
  by (cases xs) auto

lemma words_after_Nil:
  assumes "\<forall>re\<in>set rs. f re \<noteq> []"
  shows "words_after f [] rs = map (\<lambda>run. concat (map f run)) (runs white rs)"
proof -
  have "\<forall>re\<in>set (takeWhile (\<lambda>y. \<not> white y) rs). f re \<noteq> []"
    using assms by (auto dest: set_takeWhileD)
  from concat_map_Nil[OF this] show ?thesis
    unfolding words_after_def by (subst runs_split[of white rs]) simp
qed

lemma words_after_end: "words_after f cur [] = (if cur = [] then [] else [cur])"
  by (simp add: words_after_def)

lemma words_after_word: "\<not> white re \<Longrightarrow> words_after f cur (re # rs) = words_after f (cur @ f re) rs"
  by (simp add: words_after_def)

lemma words_after_white:
  assumes "white re" and "\<forall>x\<in>set rs. f x \<noteq> []"
  shows "words_after f cur (re # rs) = (if cur = [] then [] else [cur]) @ words_after f [] rs"
  using assms(1) by (simp add: words_after_Nil[OF assms(2)]) (simp add: words_after_def)

lemma runes_Cons:
  "DecodeRune (b # bs) = (r, w) \<Longrightarrow> runes (b # bs) = (r, take w (b # bs)) # runes (drop w (b # bs))"
  by simp

lemma runes_nonempty: "re \<in> set (runes bs) \<Longrightarrow> snd re \<noteq> []"
proof (induction bs rule: runes.induct)
  case 1
  then show ?case by simp
next
  case (2 b bs)
  obtain r w where d: "DecodeRune (b # bs) = (r, w)" by (cases "DecodeRune (b # bs)")
  from DecodeRune_width[OF d] have "take w (b # bs) \<noteq> []" by (cases w) auto
  with 2 d show ?case by auto
qed

lemma written_nonempty: "re \<in> set (runes bs) \<Longrightarrow> written re \<noteq> []"
  using runes_nonempty[of re bs] by (auto simp: written_def rune_bytes_def)

lemma fscan_words_runes:
  "n + length bs < hugeWid \<Longrightarrow> fscan_words bs cur n = words_after written cur (runes bs)"
proof (induction bs cur n rule: fscan_words.induct)
  case (1 cur n)
  show ?case by (simp add: words_after_end)
next
  case (2 b bs cur n)
  obtain r w where d: "DecodeRune (b # bs) = (r, w)" by (cases "DecodeRune (b # bs)")
  let ?rest = "drop w (b # bs)"
  let ?re = "(r, take w (b # bs))"
  have ne: "\<forall>x\<in>set (runes ?rest). written x \<noteq> []"
    using written_nonempty by blast
  from "2.prems" have lim: "\<not> hugeWid \<le> n" by simp
  from "2.prems" DecodeRune_width[OF d]
  have n1: "n + 1 + length ?rest < hugeWid" and n0: "1 + length ?rest < hugeWid"
    by simp_all arith+
  show ?case
  proof (cases "isSpace r")
    case True
    then have w: "white ?re" by (simp add: white_def)
    show ?thesis
    proof (cases "cur = []")
      case True
      with "2.IH"(2)[OF d[symmetric] lim \<open>isSpace r\<close> True n1] d \<open>isSpace r\<close> lim show ?thesis
        by (simp add: runes_Cons[OF d] words_after_white[OF w ne] del: runes.simps)
    next
      case False
      with "2.IH"(3)[OF d[symmetric] lim \<open>isSpace r\<close> False n0] d \<open>isSpace r\<close> lim show ?thesis
        by (simp add: runes_Cons[OF d] words_after_white[OF w ne] del: runes.simps)
    qed
  next
    case False
    then have w: "\<not> white ?re" by (simp add: white_def)
    have "min (Suc (length bs)) w = w"
      using DecodeRune_width[OF d] by simp
    then have "written ?re = rune_bytes r w (b # bs)"
      by (simp add: written_def rune_bytes_def)
    with "2.IH"(4)[OF d[symmetric] lim False n1] d False lim show ?thesis
      by (simp add: runes_Cons[OF d] words_after_word[OF w] del: runes.simps)
  qed
qed

lemma scan_words_runes_prefix: "\<exists>zs. words_after snd cur (runes bs) = scan_words bs cur @ zs"
proof (induction bs cur rule: scan_words.induct)
  case (1 cur)
  show ?case by (simp add: words_after_end)
next
  case (2 b bs cur)
  obtain r w where d: "DecodeRune (b # bs) = (r, w)" by (cases "DecodeRune (b # bs)")
  let ?rest = "drop w (b # bs)"
  let ?re = "(r, take w (b # bs))"
  have ne: "\<forall>x\<in>set (runes ?rest). snd x \<noteq> []"
    using runes_nonempty by blast
  show ?case
  proof (cases "isSpace r")
    case True
    then have w: "white ?re" by (simp add: white_def)
    show ?thesis
    proof (cases "cur = []")
      case True
      with "2.IH"(1)[OF d[symmetric] \<open>isSpace r\<close> True] d \<open>isSpace r\<close> show ?thesis
        by (simp add: runes_Cons[OF d] words_after_white[OF w ne] del: runes.simps)
    next
      case False
      show ?thesis
      proof (cases "length cur + w \<le> MaxScanTokenSize")
        case le: True
        with "2.IH"(2)[OF d[symmetric] \<open>isSpace r\<close> False le] False d \<open>isSpace r\<close> show ?thesis
          by (auto simp add: runes_Cons[OF d] words_after_white[OF w ne] simp del: runes.simps)
      next
        case gt: False
        with False d \<open>isSpace r\<close> show ?thesis
          by (simp add: runes_Cons[OF d] words_after_white[OF w ne] del: runes.simps)
      qed
    qed
  next
    case False
    then have w: "\<not> white ?re" by (simp add: white_def)
    with "2.IH"(3)[OF d[symmetric] False] d False show ?thesis
      by (simp add: runes_Cons[OF d] words_after_word[OF w] del: runes.simps)
  qed
qed

lemma DecodeRune_width4: "DecodeRune ps = (r, w) \<Longrightarrow> w \<le> 4"
  by (cases ps) (auto simp: DecodeRune.simps Let_def split: if_splits list.splits)

lemma scan_words_runes:
  "\<forall>t\<in>set (words_after snd cur (runes bs)). length t + 4 \<le> MaxScanTokenSize \<Longrightarrow>
     scan_words bs cur = words_after snd cur (runes bs)"
proof (induction bs cur rule: scan_words.induct)
  case (1 cur)
  then show ?case by (cases "cur = []") (auto simp: words_after_end)
next
  case (2 b bs cur)
  obtain r w where d: "DecodeRune (b # bs) = (r, w)" by (cases "DecodeRune (b # bs)")
  let ?rest = "drop w (b # bs)"
  let ?re = "(r, take w (b # bs))"
  have ne: "\<forall>x\<in>set (runes ?rest). snd x \<noteq> []"
    using runes_nonempty by blast
  note w4 = DecodeRune_width4[OF d]
  show ?case
  proof (cases "isSpace r")
    case True
    then have w: "white ?re" by (simp add: white_def)
    have sp: "words_after snd cur (runes (b # bs)) =
        (if cur = [] then [] else [cur]) @ words_after snd [] (runes ?rest)"
      by (simp add: runes_Cons[OF d] words_after_white[OF w ne] del: runes.simps)
    with "2.prems" have rest: "\<forall>t\<in>set (words_after snd [] (runes ?rest)). length t + 4 \<le> MaxScanTokenSize"
      by simp
    show ?thesis
    proof (cases "cur = []")
      case True
      from "2.IH"(1)[OF d[symmetric] \<open>isSpace r\<close> True rest] True d \<open>isSpace r\<close> show ?thesis
        unfolding sp by (simp del: runes.simps)
    next
      case False
      with "2.prems" sp have "length cur + 4 \<le> MaxScanTokenSize" by simp
      with w4 have le: "length cur + w \<le> MaxScanTokenSize" by simp
      from "2.IH"(2)[OF d[symmetric] \<open>isSpace r\<close> False le rest] False le d \<open>isSpace r\<close> show ?thesis
        unfolding sp by (simp del: runes.simps)
    qed
  next
    case False
    then have w: "\<not> white ?re" by (simp add: white_def)
    have step: "words_after snd cur (runes (b # bs)) =
        words_after snd (cur @ take w (b # bs)) (runes ?rest)"
      by (simp add: runes_Cons[OF d] words_after_word[OF w] del: runes.simps)
    with "2.prems" "2.IH"(3)[OF d[symmetric] False] d False show ?thesis
      by simp
  qed
qed

lemma tokens_words_after: "tokens input = words_after snd [] (runes input)"
  using runes_nonempty[of _ input] by (simp add: tokens_def words_after_Nil)

lemma Fscan_words_runs:
  "length input < hugeWid \<Longrightarrow>
     Fscan_words input = map (\<lambda>run. concat (map written run)) (runs white (runes input))"
  using written_nonempty[of _ input]
  by (simp add: Fscan_words_def fscan_words_runes words_after_Nil)

lemma length_Fscan_words:
  "length input < hugeWid \<Longrightarrow> length (Fscan_words input) = length (tokens input)"
  by (simp add: Fscan_words_runs tokens_def)

lemma Scanner_words_prefix: "\<exists>zs. tokens input = Scanner_words input @ zs"
  using scan_words_runes_prefix[of "[]" input] by (simp add: tokens_words_after Scanner_words_def)

lemma Scanner_words_tokens:
  "\<forall>t\<in>set (tokens input). length t + 4 \<le> MaxScanTokenSize \<Longrightarrow> Scanner_words input = tokens input"
  using scan_words_runes[of "[]" input] by (simp add: tokens_words_after Scanner_words_def)

lemma runes_concat: "concat (map snd (runes bs)) = bs"
proof (induction bs rule: runes.induct)
  case 1
  show ?case by simp
next
  case (2 b bs)
  obtain r w where d: "DecodeRune (b # bs) = (r, w)" by (cases "DecodeRune (b # bs)")
  with 2 have "concat (map snd (runes (drop w (b # bs)))) = drop w (b # bs)" by simp
  then have "concat (map snd (runes (b # bs))) = take w (b # bs) @ drop w (b # bs)"
    by (simp add: runes_Cons[OF d] del: runes.simps)
  then show ?case by (simp only: append_take_drop_id)
qed

lemma takeWhile_maximal:
  "\<forall>x\<in>set a. P x \<Longrightarrow> b = [] \<or> \<not> P (hd b) \<Longrightarrow> takeWhile P (a @ b) = a \<and> dropWhile P (a @ b) = b"
proof (induction a)
  case Nil
  then show ?case by (cases b) auto
next
  case (Cons x a)
  then show ?case by auto
qed

lemma runs_run:
  "run \<in> set (runs sep xs) \<longleftrightarrow>
     (\<exists>ys zs. xs = ys @ run @ zs \<and> run \<noteq> [] \<and> (\<forall>x\<in>set run. \<not> sep x)
        \<and> (ys = [] \<or> sep (last ys)) \<and> (zs = [] \<or> sep (hd zs)))"
  (is "?L sep xs \<longleftrightarrow> ?R sep xs")
proof (induction sep xs rule: runs.induct)
  case (1 sep)
  show ?case by simp
next
  case (2 sep x xs)
  let ?tw = "takeWhile (\<lambda>y. \<not> sep y) xs"
  let ?dw = "dropWhile (\<lambda>y. \<not> sep y) xs"
  show ?case
  proof (cases "sep x")
    case True
    have "?R sep (x # xs) \<longleftrightarrow> ?R sep xs"
    proof
      assume "?R sep (x # xs)"
      then obtain ys zs where d: "x # xs = ys @ run @ zs" "run \<noteq> []" "\<forall>x\<in>set run. \<not> sep x"
        "ys = [] \<or> sep (last ys)" "zs = [] \<or> sep (hd zs)" by blast
      from d(1,2,3) True obtain ys' where ys: "ys = x # ys'"
        by (cases ys) (auto simp: neq_Nil_conv)
      with d(1) have "xs = ys' @ run @ zs" by simp
      moreover from d(4) ys have "ys' = [] \<or> sep (last ys')" by (auto split: if_splits)
      ultimately show "?R sep xs" using d(2,3,5) by blast
    next
      assume "?R sep xs"
      then obtain ys zs where d: "xs = ys @ run @ zs" "run \<noteq> []" "\<forall>x\<in>set run. \<not> sep x"
        "ys = [] \<or> sep (last ys)" "zs = [] \<or> sep (hd zs)" by blast
      have "x # xs = (x # ys) @ run @ zs" using d(1) by simp
      moreover have "x # ys = [] \<or> sep (last (x # ys))" using d(4) True by auto
      ultimately show "?R sep (x # xs)" using d(2,3,5) by blast
    qed
    with 2(1)[OF True] True show ?thesis by simp
  next
    case False
    have tw: "\<forall>y\<in>set ?tw. \<not> sep y" by (auto dest: set_takeWhileD)
    have dw: "?dw = [] \<or> sep (hd ?dw)"
      using hd_dropWhile[of "\<lambda>y. \<not> sep y" xs] by auto
    have xs: "xs = ?tw @ ?dw" by simp
    have "?R sep (x # xs) \<longleftrightarrow> run = x # ?tw \<or> ?R sep ?dw"
    proof
      assume "?R sep (x # xs)"
      then obtain ys zs where d: "x # xs = ys @ run @ zs" "run \<noteq> []" "\<forall>x\<in>set run. \<not> sep x"
        "ys = [] \<or> sep (last ys)" "zs = [] \<or> sep (hd zs)" by blast
      show "run = x # ?tw \<or> ?R sep ?dw"
      proof (cases ys)
        case Nil
        with d(1,2) obtain run' where r: "run = x # run'" "xs = run' @ zs"
          by (cases run) auto
        from d(3) r(1) have "\<forall>y\<in>set run'. \<not> sep y" by simp
        from takeWhile_maximal[of run' "\<lambda>y. \<not> sep y" zs, OF this] d(5) r(2)
        have "?tw = run'" by auto
        with r(1) show ?thesis by simp
      next
        case (Cons y ys')
        with d(1) have y: "y = x" and xs': "xs = ys' @ run @ zs" by simp_all
        from d(4) Cons y False have ys': "ys' \<noteq> []" "sep (last ys')" by (auto split: if_splits)
        then have ex: "\<exists>z\<in>set ys'. sep z" using last_in_set by blast
        let ?d = "dropWhile (\<lambda>y. \<not> sep y) ys'"
        from ex obtain z where "z \<in> set ys'" "sep z" by blast
        then have "?dw = ?d @ run @ zs"
          unfolding xs' using dropWhile_append1[of z ys' "\<lambda>y. \<not> sep y" "run @ zs"] by simp
        moreover from ex have "?d \<noteq> []" by (auto simp: dropWhile_eq_Nil_conv)
        moreover then have "last ?d = last ys'"
          by (metis last_appendR takeWhile_dropWhile_id)
        ultimately show ?thesis using d(2,3,5) ys'(2) by metis
      qed
    next
      assume "run = x # ?tw \<or> ?R sep ?dw"
      then show "?R sep (x # xs)"
      proof
        assume r: "run = x # ?tw"
        have "x # xs = [] @ run @ ?dw" using r xs by simp
        moreover have "\<forall>y\<in>set run. \<not> sep y" using r tw False by simp
        ultimately show ?thesis using dw r by blast
      next
        assume "?R sep ?dw"
        then obtain ys zs where d: "?dw = ys @ run @ zs" "run \<noteq> []" "\<forall>x\<in>set run. \<not> sep x"
          "ys = [] \<or> sep (last ys)" "zs = [] \<or> sep (hd zs)" by blast
        have "ys \<noteq> []"
        proof
          assume "ys = []"
          with d(1,2) have "?dw \<noteq> []" "hd ?dw = hd run" by auto
          with dw d(2,3) show False by (metis hd_in_set)
        qed
        with d(4) have l: "sep (last ((x # ?tw) @ ys))" by simp
        have "x # xs = ((x # ?tw) @ ys) @ run @ zs"
          using xs d(1) by (metis append_Cons append_assoc)
        with l d(2,3,5) show ?thesis by blast
      qed
    qed
    with 2(2)[OF False] False show ?thesis by simp
  qed
qed

lemma tokens_substring:
  assumes "t \<in> set (tokens input)"
  shows "\<exists>pre post. input = pre @ t @ post"
proof -
  from assms obtain run where run: "run \<in> set (runs white (runes input))" "t = concat (map snd run)"
    by (auto simp: tokens_def)
  from run(1) obtain ys zs where "runes input = ys @ run @ zs"
    unfolding runs_run by blast
  then have "concat (map snd (runes input)) = concat (map snd ys) @ t @ concat (map snd zs)"
    by (simp add: run(2))
  then show ?thesis unfolding runes_concat by blast
qed

lemma runes_ascii: "of_char b < (0x80::nat) \<Longrightarrow> runes (b # bs) = (of_char b, [b]) # runes bs"
  by (simp add: DecodeRune_ascii)

lemma words_after_ascii:
  "of_char b < (0x80::nat) \<Longrightarrow> words_after snd cur (runes (b # bs)) =
     (if isSpace (of_char b) then (if cur = [] then [] else [cur]) @ words_after snd [] (runes bs)
      else words_after snd (cur @ [b]) (runes bs))"
  using runes_nonempty[of _ bs]
  by (simp add: runes_ascii words_after_white words_after_word white_def del: runes.simps)

lemma tokens_iff:
  "t \<in> set (tokens input) \<longleftrightarrow>
     (\<exists>ys run zs. runes input = ys @ run @ zs \<and> t = concat (map snd run) \<and> run \<noteq> []
        \<and> (\<forall>re\<in>set run. \<not> white re)
        \<and> (ys = [] \<or> white (last ys)) \<and> (zs = [] \<or> white (hd zs)))"
  unfolding tokens_def set_map image_iff Bex_def runs_run by blast

lemma runes_first_ascii:
  assumes "re \<in> set (runes bs)" and "of_char (hd (snd re)) < (0x80::nat)"
  shows "written re = snd re"
  using assms
proof (induction bs rule: runes.induct)
  case 1
  then show ?case by simp
next
  case (2 b bs)
  obtain r w where d: "DecodeRune (b # bs) = (r, w)" by (cases "DecodeRune (b # bs)")
  from "2.prems"(1) d consider "re = (r, take w (b # bs))" | "re \<in> set (runes (drop w (b # bs)))"
    by auto
  then show ?case
  proof cases
    case 1
    from DecodeRune_width[OF d] have "hd (take w (b # bs)) = b" by (cases w) auto
    with 1 "2.prems"(2) have "of_char b < (0x80::nat)" by simp
    from DecodeRune_ascii[OF this, of bs] d have "r = of_char b" "w = 1" by simp_all
    with 1 \<open>of_char b < 0x80\<close> show ?thesis
      by (simp add: written_def rune_bytes_def RuneError_def)
  next
    case 2
    from "2.IH"[OF d[symmetric] 2 "2.prems"(2)] show ?thesis .
  qed
qed

lemma written_cases: "written re = snd re \<or> written re = [CHR 0xEF, CHR 0xBF, CHR 0xBD]"
  by (simp add: written_def rune_bytes_def)

lemma written_run:
  assumes "set run \<subseteq> set (runes bs)" and "of_char q < (0x80::nat)"
      and "set (concat (map written run)) \<subseteq> {q} \<or> set (concat (map snd run)) \<subseteq> {q}"
  shows "map written run = map snd run"
proof (rule map_cong[OF refl])
  fix re assume re: "re \<in> set run"
  then have in_r: "re \<in> set (runes bs)" using assms(1) by blast
  from assms(3) show "written re = snd re"
  proof
    assume "set (concat (map written run)) \<subseteq> {q}"
    with re have "set (written re) \<subseteq> {q}" by auto
    moreover have "q \<noteq> CHR 0xEF" using assms(2) by auto
    ultimately show ?thesis using written_cases[of re] by auto
  next
    assume "set (concat (map snd run)) \<subseteq> {q}"
    with re have "set (snd re) \<subseteq> {q}" by auto
    with runes_nonempty[OF in_r] have "hd (snd re) = q"
      by (cases "snd re") auto
    with runes_first_ascii[OF in_r] assms(2) show ?thesis by simp
  qed
qed

lemma sentinel_Fscan_tokens:
  assumes "length input < hugeWid"
  shows "sentinel \<in> set (Fscan_words input) \<longleftrightarrow> sentinel \<in> set (tokens input)"
proof -
  have q: "of_char (CHR 0x22) < (0x80::nat)" by simp
  have s: "set sentinel \<subseteq> {CHR 0x22}" by (simp add: sentinel_def)
  have "concat (map written run) = sentinel \<longleftrightarrow> concat (map snd run) = sentinel"
    if "run \<in> set (runs white (runes input))" for run
  proof -
    from that have sub: "set run \<subseteq> set (runes input)"
      unfolding runs_run by auto
    show ?thesis
    proof
      assume e: "concat (map written run) = sentinel"
      with s written_run[OF sub q] have "map written run = map snd run" by simp
      with e show "concat (map snd run) = sentinel" by (simp only:)
    next
      assume e: "concat (map snd run) = sentinel"
      with s written_run[OF sub q] have "map written run = map snd run" by simp
      with e show "concat (map written run) = sentinel" by (simp only:)
    qed
  qed
  then show ?thesis
    unfolding Fscan_words_runs[OF assms] tokens_def set_map image_iff by (metis (no_types, lifting))
qed

lemma fscan_words_parts:
  "t \<in> set (fscan_words bs cur n) \<Longrightarrow>
     \<exists>ys run zs. runes bs = ys @ run @ zs
        \<and> (t = concat (map written run) \<or> (ys = [] \<and> t = cur @ concat (map written run)))"
proof (induction bs cur n rule: fscan_words.induct)
  case (1 cur n)
  then have "t = cur" by (auto split: if_splits)
  then have "runes [] = [] @ [] @ [] \<and> t = cur @ concat (map written [])" by simp
  then show ?case by blast
next
  case (2 b bs cur n)
  obtain r w where d: "DecodeRune (b # bs) = (r, w)" by (cases "DecodeRune (b # bs)")
  let ?rest = "drop w (b # bs)"
  let ?re = "(r, take w (b # bs))"
  have rs: "runes (b # bs) = ?re # runes ?rest" by (rule runes_Cons[OF d])
  have cur: "\<exists>ys run zs. runes (b # bs) = ys @ run @ zs
        \<and> (t = concat (map written run) \<or> (ys = [] \<and> t = cur @ concat (map written run)))"
    if "t = cur"
  proof -
    from that have "runes (b # bs) = [] @ [] @ runes (b # bs) \<and> t = cur @ concat (map written [])"
      by simp
    then show ?thesis by blast
  qed
  have later: "\<exists>ys run zs. runes (b # bs) = ys @ run @ zs
        \<and> (t = concat (map written run) \<or> (ys = [] \<and> t = cur @ concat (map written run)))"
    if "\<exists>ys run zs. runes ?rest = ys @ run @ zs
        \<and> (t = concat (map written run) \<or> (ys = [] \<and> t = [] @ concat (map written run)))"
  proof -
    from that obtain ys run zs where "runes ?rest = ys @ run @ zs" "t = concat (map written run)"
      by auto
    then have "runes (b # bs) = (?re # ys) @ run @ zs \<and> t = concat (map written run)"
      by (simp add: rs del: runes.simps)
    then show ?thesis by blast
  qed
  show ?case
  proof (cases "hugeWid \<le> n")
    case lim: True
    show ?thesis
    proof (cases "cur = []")
      case True
      with "2.prems" d lim show ?thesis by simp
    next
      case c: False
      with "2.prems" d lim have "t = cur \<or> t \<in> set (fscan_words (b # bs) [] 0)" by simp
      then show ?thesis
      proof
        assume "t = cur" then show ?thesis by (rule cur)
      next
        assume "t \<in> set (fscan_words (b # bs) [] 0)"
        from "2.IH"(1)[OF d[symmetric] lim c this] show ?thesis by auto
      qed
    qed
  next
    case lim: False
    show ?thesis
    proof (cases "isSpace r")
      case True
      show ?thesis
      proof (cases "cur = []")
        case c: True
        with "2.prems" d True lim have "t \<in> set (fscan_words ?rest [] (n + 1))" by simp
        from later[OF "2.IH"(2)[OF d[symmetric] lim True c this]] show ?thesis .
      next
        case c: False
        with "2.prems" d True lim have "t = cur \<or> t \<in> set (fscan_words ?rest [] 1)" by simp
        then show ?thesis
        proof
          assume "t = cur" then show ?thesis by (rule cur)
        next
          assume "t \<in> set (fscan_words ?rest [] 1)"
          from later[OF "2.IH"(3)[OF d[symmetric] lim True c this]] show ?thesis .
        qed
      qed
    next
      case False
      have "min (Suc (length bs)) w = w"
        using DecodeRune_width[OF d] by simp
      then have wr: "written ?re = rune_bytes r w (b # bs)"
        by (simp add: written_def rune_bytes_def)
      from "2.prems" d False lim
      have "t \<in> set (fscan_words ?rest (cur @ rune_bytes r w (b # bs)) (n + 1))" by simp
      from "2.IH"(4)[OF d[symmetric] lim False this]
      obtain ys run zs where p: "runes ?rest = ys @ run @ zs"
        "t = concat (map written run) \<or> (ys = [] \<and> t = (cur @ rune_bytes r w (b # bs)) @ concat (map written run))"
        by blast
      from p(2) show ?thesis
      proof
        assume "t = concat (map written run)"
        with p(1) have "runes (b # bs) = (?re # ys) @ run @ zs \<and> t = concat (map written run)"
          by (simp add: rs del: runes.simps)
        then show ?thesis by blast
      next
        assume "ys = [] \<and> t = (cur @ rune_bytes r w (b # bs)) @ concat (map written run)"
        with p(1) wr have "runes (b # bs) = [] @ (?re # run) @ zs
            \<and> t = cur @ concat (map written (?re # run))"
          by (simp add: rs del: runes.simps)
        then show ?thesis by blast
      qed
    qed
  qed
qed

lemma sentinel_Fscan_substring:
  assumes "sentinel \<in> set (Fscan_words input)"
  shows "\<exists>pre post. input = pre @ sentinel @ post"
proof -
  from fscan_words_parts[OF assms[unfolded Fscan_words_def]]
  obtain ys run zs where p: "runes input = ys @ run @ zs" "sentinel = concat (map written run)"
    by auto
  have q: "of_char (CHR 0x22) < (0x80::nat)" by simp
  have "set run \<subseteq> set (runes input)" using p(1) by auto
  moreover have "set (concat (map written run)) \<subseteq> {CHR 0x22}"
    using p(2)[symmetric] by (simp add: sentinel_def)
  ultimately have "map written run = map snd run"
    using written_run[OF _ q] by blast
  with p(2) have "concat (map snd run) = sentinel" by (simp only:)
  with p(1) have "concat (map snd (runes input)) = concat (map snd ys) @ sentinel @ concat (map snd zs)"
    by simp
  then show ?thesis unfolding runes_concat by blast
qed

subsection \<open>An input with a word that is longer than a token of the scanner\<close>

lemma words_after_block:
  "\<forall>x\<in>set w. of_char x < (0x80::nat) \<and> \<not> isSpace (of_char x) \<Longrightarrow>
     words_after snd cur (runes (w @ rest)) = words_after snd (cur @ w) (runes rest)"
  by (induction w arbitrary: cur) (simp_all add: words_after_ascii del: runes.simps)

lemma fscan_words_word:
  "\<forall>x\<in>set w. of_char x < (0x80::nat) \<and> \<not> isSpace (of_char x) \<Longrightarrow> n + length w < hugeWid \<Longrightarrow>
     fscan_words (w @ rest) cur n = fscan_words rest (cur @ w) (n + length w)"
  by (induction w arbitrary: cur n) (simp_all add: fscan_words_ascii del: fscan_words.simps(2))

lemma big_word_length: "length big_word = 65536"
  by (simp add: big_word_def)

lemma big_word_set: "set big_word = {CHR ''w''}"
  by (simp add: big_word_def)

lemma big_word_not_Nil: "big_word \<noteq> []"
  by (simp add: big_word_def)

lemma big_word_neq: "length s < 65536 \<Longrightarrow> big_word \<noteq> s \<and> s \<noteq> big_word"
  using big_word_length by auto

lemma big_word_plain: "\<forall>x\<in>set big_word. of_char x < (0x80::nat) \<and> \<not> isSpace (of_char x)"
  by (simp add: big_word_set isSpace_def)

lemma tokens_big_input: "tokens big_input = [''x'', big_word, ''y'', ''z'']"
proof -
  have "words_after snd [] (runes (big_word @ '' y z'')) = words_after snd big_word (runes '' y z'')"
    using words_after_block[OF big_word_plain, of "[]" "'' y z''"] by simp
  then show ?thesis
    by (simp add: tokens_words_after big_input_def words_after_ascii words_after_end isSpace_def
          big_word_not_Nil del: runes.simps(2))
qed

lemma Fscan_words_big_input: "Fscan_words big_input = [''x'', big_word, ''y'', ''z'']"
proof -
  have "fscan_words (big_word @ '' y z'') [] 1 = fscan_words '' y z'' big_word 65537"
    using fscan_words_word[OF big_word_plain, of 1 "'' y z''" "[]"]
    by (simp add: big_word_length hugeWid_def)
  then show ?thesis
    by (simp add: Fscan_words_def big_input_def fscan_words_ascii isSpace_def big_word_not_Nil
          hugeWid_def del: fscan_words.simps(2))
qed

lemma Scanner_words_big_input: "Scanner_words big_input = [''x'']"
proof -
  have "scan_words (big_word @ '' y z'') [] = scan_words '' y z'' big_word"
    using scan_words_word[OF big_word_plain, of "'' y z''" "[]"] by simp
  then show ?thesis
    by (simp add: Scanner_words_def big_input_def scan_words_ascii isSpace_def big_word_not_Nil
          big_word_length MaxScanTokenSize_def del: scan_words.simps(2))
qed

lemma FileToFreqTable_big_input: "FileToFreqTable (NewChain 1) (Some big_input) = Inr cut_chain"
  by (simp add: FileToFreqTable_def Scanner_words_big_input startPrefix_def maxAlloc_def
        stringSize_def NewChain_def add_word_Cons String_def cut_chain_def suffixes_of_def)

lemma Build_big_input: "Build (NewChain 1) big_input = Inr big_chain"
  by (simp add: Build_def Fscan_words_big_input startPrefix_def maxAlloc_def
        stringSize_def NewChain_def add_word_Cons String_def big_chain_def suffixes_of_def
        sentinel_def big_word_neq)

lemma add_words_total:
  assumes "1 \<le> k" and "k * stringSize \<le> maxAlloc" and "int (length ws) \<le> MaxInt"
  shows "\<exists>p c' p'. startPrefix (prefixLen (NewChain k)) = Inr p
            \<and> add_words (NewChain k, p) ws = Inr (c', p')
            \<and> total_count (freqTable c') = int (length ws)"
proof -
  obtain p where p: "startPrefix (prefixLen (NewChain k)) = Inr p" "p \<noteq> []"
    using startPrefix_pos[of k] assms(1,2) by (auto simp: NewChain_def)
  have t0: "total_count (freqTable (NewChain k)) = 0"
    by (simp add: NewChain_def)
  from add_words_nonempty[OF p(2), of "NewChain k" ws] obtain c' p' where
    r: "add_words (NewChain k, p) ws = Inr (c', p')" by blast
  from add_words_count[OF r counted_NewChain] assms(3) t0
  have "total_count (freqTable c') = int (length ws)" by simp
  with p(1) r show ?thesis by blast
qed

section \<open>The claims\<close>

subsection \<open>C1: writing the table and reading it again\<close>

text \<open>
  Claim C1 says that for every table built from a stream of words, with a positive
  \<open>prefixLen\<close> and counts of 1 or more, \<^verbatim>\<open>FreqTableFromFreqFile\<close> reads from the file that
  \<^verbatim>\<open>FreqTableToFile\<close> has written a table of the same \<open>prefixLen\<close> and the same map from
  prefixes to the counts of their suffixes. The code does not do that for every table:
  \<^verbatim>\<open>FreqTableFromFreqFile\<close> reads the lines with a \<^verbatim>\<open>bufio.Scanner\<close>, whose \<^verbatim>\<open>Scan\<close> returns
  false at a line of \<^verbatim>\<open>MaxScanTokenSize\<close> (65536) bytes or more, and the loop ends there as
  at the end of the file, since \<^verbatim>\<open>scanner.Err()\<close> is never looked at. The table read is
  the table of the lines before the long line.

  The input of two words of 40000 bytes, read by \<^verbatim>\<open>FileToFreqTable\<close> with prefixes of one
  word, gives the table \<open>long_chain\<close> of two prefixes; \<^verbatim>\<open>FreqTableToFile\<close> writes the file
  \<open>long_file\<close> of three lines, the last of 80004 bytes; \<^verbatim>\<open>FreqTableFromFreqFile\<close> returns
  without a panic a table that has the prefix of the sentinel only: the prefix
  \<open>long_word\<close>, which the table written maps to a count, is not a key of the table read.
\<close>

theorem roundtrip_loses_long_line:
  "FileToFreqTable (NewChain 1) (Some (long_word @ '' '' @ long_word)) = Inr long_chain
   \<and> FreqTableToFile long_chain True [sentinel, long_word] (\<lambda>key. [long_word]) = Inr long_file
   \<and> FreqTableFromFreqFile (Some long_file) =
       Inr \<lparr>chain = Map.empty, prefixLen = 1, freqTable = [sentinel \<mapsto> [long_word \<mapsto> 1]]\<rparr>
   \<and> freqTable long_chain long_word = Some [long_word \<mapsto> 1]
   \<and> [sentinel \<mapsto> [long_word \<mapsto> (1::int)]] long_word = None"
proof -
  have "FreqTableFromFreqFile (Some long_file) =
       Inr \<lparr>chain = Map.empty, prefixLen = 1, freqTable = [sentinel \<mapsto> [long_word \<mapsto> 1]]\<rparr>"
    unfolding FreqTableFromFreqFile_def by (simp only: option.case Scanner_lines_long FreqFile_lines_long)
  moreover have "freqTable long_chain long_word = Some [long_word \<mapsto> 1]"
    by (simp add: long_chain_def)
  moreover have "[sentinel \<mapsto> [long_word \<mapsto> (1::int)]] long_word = None"
    by (simp add: long_word_sentinel)
  ultimately show ?thesis
    using FileToFreqTable_long FreqTableToFile_long by simp
qed

text \<open>
  What the code does keep: the table that \<^verbatim>\<open>main\<close> builds from its input files with a prefix
  length \<open>k \<ge> 1\<close> is read back as it was written, with the same \<open>prefixLen\<close> and the same
  map, whenever every line written for a prefix is shorter than \<^verbatim>\<open>MaxScanTokenSize\<close>, for
  every order in which the loops of \<^verbatim>\<open>FreqTableToFile\<close> visit the prefixes and the suffixes.
\<close>

theorem roundtrip_short_lines:
  assumes "1 \<le> k" and "k \<le> MaxInt"
      and "read_files (NewChain k) fs = Inr c"
      and "range_order (freqTable c) ks"
      and "\<forall>key\<in>dom (freqTable c). range_order (table_of (freqTable c) key) (ord key)"
      and "\<forall>key\<in>dom (freqTable c). length (table_line c ord key) < MaxScanTokenSize"
  shows "\<exists>out c'. FreqTableToFile c True ks ord = Inr out
           \<and> FreqTableFromFreqFile (Some out) = Inr c'
           \<and> prefixLen c' = prefixLen c \<and> freqTable c' = freqTable c"
proof -
  have "built (nat (prefixLen (NewChain k))) (freqTable (NewChain k))"
    by (rule built_NewChain)
  from read_files_built[OF assms(3) this] assms(1)
  have b: "built (nat k) (freqTable c)" and pl: "prefixLen c = int (nat k)"
    by (simp_all add: NewChain_def)
  have "0 < nat k" "int (nat k) \<le> MaxInt" using assms(1,2) by simp_all
  from roundtrip[OF b this(1) pl this(2) assms(4,5,6)] show ?thesis by auto
qed

text \<open>The table of the input \<^verbatim>\<open>a b a b\<close> with prefixes of one word.\<close>

theorem roundtrip_short_lines_witness:
  "read_files (NewChain 1) [Some ''a b a b''] = Inr round_chain
   \<and> range_order (freqTable round_chain) [''b'', sentinel, ''a'']
   \<and> (\<forall>key\<in>dom (freqTable round_chain).
         range_order (table_of (freqTable round_chain) key) (round_order key))
   \<and> (\<forall>key\<in>dom (freqTable round_chain).
         length (table_line round_chain round_order key) < MaxScanTokenSize)
   \<and> (\<exists>out c'. FreqTableToFile round_chain True [''b'', sentinel, ''a''] round_order = Inr out
           \<and> FreqTableFromFreqFile (Some out) = Inr c'
           \<and> prefixLen c' = prefixLen round_chain \<and> freqTable c' = freqTable round_chain)"
proof -
  have h1: "read_files (NewChain 1) [Some ''a b a b''] = Inr round_chain"
    by (simp add: FileToFreqTable_def Scanner_words_def scan_words_ascii isSpace_def
          MaxScanTokenSize_def startPrefix_def maxAlloc_def stringSize_def NewChain_def add_word_Cons String_def sentinel_def
          suffixes_of_def count_of_def wrap_def round_chain_def fun_upd_twist
          del: scan_words.simps(2))
  have d: "dom (freqTable round_chain) = {sentinel, ''a'', ''b''}"
    by (auto simp: round_chain_def)
  have h2: "range_order (freqTable round_chain) [''b'', sentinel, ''a'']"
    by (auto simp: range_order_def d sentinel_def)
  have h3: "\<forall>key\<in>dom (freqTable round_chain).
         range_order (table_of (freqTable round_chain) key) (round_order key)"
    unfolding d by (simp add: range_order_def round_chain_def table_of_def round_order_def sentinel_def)
  have h4: "\<forall>key\<in>dom (freqTable round_chain).
         length (table_line round_chain round_order key) < MaxScanTokenSize"
    unfolding d by (simp add: eval_defs round_chain_def round_order_def)
  have "(1::int) \<le> 1" "1 \<le> MaxInt" by (simp_all add: MaxInt_def)
  from roundtrip_short_lines [OF this h1 h2 h3 h4] h1 h2 h3 h4 show ?thesis
    by (intro conjI)
qed

subsection \<open>C2: the expansion of the counts\<close>

text \<open>
  Claim C2. For every frequency table (its counts are not negative) and every prefix key
  in it, the sequence of suffixes that \<^verbatim>\<open>ChainFromFreqTable\<close> stores for the key has as
  many elements as the sum of the counts recorded for the key, and every token \<open>s\<close>
  occurs in it exactly as often as its recorded count \<^verbatim>\<open>table[key][s]\<close> says (not at all
  when the table records no count for it). This holds in whatever order the two loops
  visit the prefixes and the suffixes.
\<close>

theorem expansion_fidelity:
  assumes "range_order (freqTable c) ks"
      and "freqTable c key = Some val"
      and "range_order val (ord key)"
      and "\<forall>s v. val s = Some v \<longrightarrow> 0 \<le> v"
  shows "\<exists>seq. chain (ChainFromFreqTable c ks ord) key = Some seq
           \<and> int (length seq) = (\<Sum>s\<in>dom val. count_of val s)
           \<and> (\<forall>s. int (count_list seq s) = count_of val s)"
proof -
  let ?f = "\<lambda>k. nat (count_of val k)"
  let ?seq = "concat (map (\<lambda>k. replicate (?f k) k) (ord key))"
  have key: "key \<in> set ks" using assms(1,2) by (auto simp: range_order_def)
  have dist: "distinct (ord key)" and dom: "set (ord key) = dom val"
    using assms(3) by (auto simp: range_order_def)
  have nonneg: "0 \<le> count_of val s" for s
    using assms(4) by (auto simp: count_of_def split: option.splits)
  have "chain (ChainFromFreqTable c ks ord) key = Some ?seq"
    using key assms(2) by (simp add: ChainFromFreqTable_chain expand_suffixes_concat table_of_def)
  moreover have "int (length ?seq) = (\<Sum>s\<in>dom val. count_of val s)"
  proof -
    have "int (length ?seq) = int (sum_list (map ?f (ord key)))"
      by (simp only: length_concat_replicate)
    also have "\<dots> = int (\<Sum>s\<in>set (ord key). ?f s)"
      using dist by (simp add: sum_list_distinct_conv_sum_set)
    also have "\<dots> = (\<Sum>s\<in>dom val. count_of val s)"
      using nonneg by (simp add: dom)
    finally show ?thesis .
  qed
  moreover have "int (count_list ?seq s) = count_of val s" for s
  proof (cases "s \<in> dom val")
    case True
    then show ?thesis using dist dom nonneg[of s] by (simp add: count_list_concat_replicate)
  next
    case False
    then have "count_of val s = 0" by (auto simp: count_of_def split: option.splits)
    with False show ?thesis using dist dom by (simp add: count_list_concat_replicate)
  qed
  ultimately show ?thesis by blast
qed

text \<open>
  The prefix \<^verbatim>\<open>a b\<close> of the small table, with the counts 2 for \<^verbatim>\<open>c\<close> and 1 for \<^verbatim>\<open>e\<close>,
  expands to a sequence of three suffixes.
\<close>

theorem expansion_fidelity_witness:
  "range_order (freqTable small_table) [''b c'', ''a b'']
   \<and> freqTable small_table ''a b'' = Some [''c'' \<mapsto> 2, ''e'' \<mapsto> 1]
   \<and> range_order (table_of (freqTable small_table) ''a b'') (small_order ''a b'')
   \<and> (\<exists>seq. chain (ChainFromFreqTable small_table [''b c'', ''a b''] small_order) ''a b'' = Some seq
         \<and> int (length seq) = (\<Sum>s\<in>dom (table_of (freqTable small_table) ''a b'').
                                  count_of (table_of (freqTable small_table) ''a b'') s)
         \<and> (\<forall>s. int (count_list seq s) = count_of (table_of (freqTable small_table) ''a b'') s))
   \<and> chain (ChainFromFreqTable small_table [''b c'', ''a b''] small_order) ''a b'' = Some [''e'', ''c'', ''c'']"
proof -
  let ?val = "table_of (freqTable small_table) ''a b''"
  have h1: "range_order (freqTable small_table) [''b c'', ''a b'']"
    by (auto simp: small_table_def range_order_def)
  have h2: "freqTable small_table ''a b'' = Some [''c'' \<mapsto> 2, ''e'' \<mapsto> 1]"
    by (simp add: small_table_def)
  have h2': "freqTable small_table ''a b'' = Some ?val"
    by (simp add: small_table_def table_of_def)
  have h3: "range_order ?val (small_order ''a b'')"
    by (auto simp: small_table_def table_of_def small_order_def range_order_def)
  have h4: "\<forall>s v. ?val s = Some v \<longrightarrow> 0 \<le> v"
    by (simp add: small_table_def table_of_def)
  have ev: "chain (ChainFromFreqTable small_table [''b c'', ''a b''] small_order) ''a b'' = Some [''e'', ''c'', ''c'']"
    by (simp add: small_table_def small_order_def ChainFromFreqTable_def eval_defs)
  show ?thesis
    by (intro conjI h1 h2 h3 ev
          expansion_fidelity [of small_table "[''b c'', ''a b'']" "''a b''" ?val small_order,
            OF h1 h2' h3 h4])
qed

subsection \<open>C3: the number of words that Generate emits\<close>

text \<open>
  Claim C3 says that, for every expanded chain, \<^verbatim>\<open>Generate(n)\<close> emits exactly \<open>n\<close> tokens
  unless the walk reaches a prefix without suffixes, and that \<open>n = 0\<close> always yields an
  empty output. It fails for a chain whose \<open>prefixLen\<close> is 0: the chain read from the file
  of the one line \<^verbatim>\<open>a 1\<close> has the suffix \<^verbatim>\<open>a\<close> for its first window, the empty one, and
  \<^verbatim>\<open>Generate(1)\<close> emits nothing: it panics in \<^verbatim>\<open>Shift\<close> after it has chosen the first
  word. It fails too for a chain whose \<open>prefixLen\<close> is no length of a slice: the chain read
  from the file of the one line \<^verbatim>\<open>4611686018427387904\<close> makes \<^verbatim>\<open>Generate(0)\<close> panic in
  \<^verbatim>\<open>make\<close>.
\<close>

theorem Generate_bound_counterexample:
  "FreqTableFromFreqFile (Some ''a 1\<newline>'') = Inr (no_prefix_chain\<lparr>chain := Map.empty\<rparr>)
   \<and> ChainFromFreqTable (no_prefix_chain\<lparr>chain := Map.empty\<rparr>) [[]] (\<lambda>key. [''a'']) = no_prefix_chain
   \<and> suffixes_of (chain no_prefix_chain) (String (replicate (nat (prefixLen no_prefix_chain)) sentinel)) = [''a'']
   \<and> Generate_words no_prefix_chain 1 id = Inl (SliceBoundsOutOfRange 1 0)
   \<and> Generate no_prefix_chain 1 id = Inl (SliceBoundsOutOfRange 1 0)
   \<and> FreqTableFromFreqFile (Some ''4611686018427387904\<newline>'') = Inr (NewChain 4611686018427387904)
   \<and> ChainFromFreqTable (NewChain 4611686018427387904) [] (\<lambda>key. []) = NewChain 4611686018427387904
   \<and> Generate (NewChain 4611686018427387904) 0 id = Inl MakesliceLenOutOfRange"
proof -
  have "Atoi ''4611686018427387904'' = Inr 4611686018427387904"
    by (simp add: Atoi_def is_digit_def digits_value_def MaxInt_def MinInt_def)
  then have "FreqTableFromFreqFile (Some ''4611686018427387904\<newline>'') = Inr (NewChain 4611686018427387904)"
    by (simp add: FreqTableFromFreqFile_def Scanner_lines_def LF_def CR_def dropCR_def
          MaxScanTokenSize_def FreqFile_line_def NewChain_def)
  moreover have "Generate (NewChain 4611686018427387904) 0 id = Inl MakesliceLenOutOfRange"
    by (simp add: Generate_def Generate_words_def NewChain_def startPrefix_def maxAlloc_def
          stringSize_def)
  moreover have "ChainFromFreqTable (NewChain 4611686018427387904) [] (\<lambda>key. []) =
      NewChain 4611686018427387904"
    by (simp add: ChainFromFreqTable_def NewChain_def)
  moreover have "FreqTableFromFreqFile (Some ''a 1\<newline>'') = Inr (no_prefix_chain\<lparr>chain := Map.empty\<rparr>)
   \<and> ChainFromFreqTable (no_prefix_chain\<lparr>chain := Map.empty\<rparr>) [[]] (\<lambda>key. [''a'']) = no_prefix_chain
   \<and> suffixes_of (chain no_prefix_chain) (String (replicate (nat (prefixLen no_prefix_chain)) sentinel)) = [''a'']
   \<and> Generate_words no_prefix_chain 1 id = Inl (SliceBoundsOutOfRange 1 0)
   \<and> Generate no_prefix_chain 1 id = Inl (SliceBoundsOutOfRange 1 0)"
    by (simp add: no_prefix_chain_def FreqTableFromFreqFile_def ChainFromFreqTable_def
          Generate_def Generate_words_def eval_defs)
  ultimately show ?thesis by (simp only: simp_thms)
qed

text \<open>
  Claim C3, amended. For every chain whose \<open>prefixLen\<close> is a length of 1 or more that
  \<^verbatim>\<open>make\<close> accepts (at most \<open>2 ^ 44\<close>), every \<open>n \<ge> 0\<close> and every sequence of random choices,
  \<^verbatim>\<open>Generate(n)\<close> returns, and the words \<open>ws\<close> it has joined are at most \<open>n\<close>; they are
  exactly \<open>n\<close> unless the window that the walk has reached after them has no suffix in the
  chain (its key is missing, or its sequence is empty); for \<open>n = 0\<close> there is no word.
  With \<open>prefixLen = 0\<close> the same holds as long as no word is chosen: \<^verbatim>\<open>Generate(n)\<close> returns
  the empty output when \<open>n = 0\<close> or the empty window has no suffix, and panics in \<^verbatim>\<open>Shift\<close>,
  after it has chosen the first word, otherwise. With a \<open>prefixLen\<close> that \<^verbatim>\<open>make\<close> refuses
  (a negative one, or one above \<open>2 ^ 44\<close>) \<^verbatim>\<open>Generate\<close> panics before the walk.
\<close>

theorem Generate_bound:
  assumes "0 \<le> n"
  shows "(1 \<le> prefixLen c \<and> prefixLen c * stringSize \<le> maxAlloc \<longrightarrow>
           (\<exists>ws. Generate_words c n rnd = Inr ws \<and> Generate c n rnd = Inr (Join ws '' '')
              \<and> length ws \<le> nat n
              \<and> (length ws < nat n \<longrightarrow>
                   suffixes_of (chain c)
                     (String (drop (length ws) (replicate (nat (prefixLen c)) sentinel @ ws))) = [])
              \<and> (n = 0 \<longrightarrow> ws = [])))
       \<and> (prefixLen c = 0 \<and> (n = 0 \<or> suffixes_of (chain c) (String []) = []) \<longrightarrow>
            Generate_words c n rnd = Inr [] \<and> Generate c n rnd = Inr [])
       \<and> (prefixLen c = 0 \<and> 0 < n \<and> suffixes_of (chain c) (String []) \<noteq> [] \<longrightarrow>
            Generate c n rnd = Inl (SliceBoundsOutOfRange 1 0))
       \<and> (prefixLen c < 0 \<or> maxAlloc < prefixLen c * stringSize \<longrightarrow>
            Generate c n rnd = Inl MakesliceLenOutOfRange)"
proof (intro conjI impI)
  assume a: "1 \<le> prefixLen c \<and> prefixLen c * stringSize \<le> maxAlloc"
  then have ne: "replicate (nat (prefixLen c)) sentinel \<noteq> []" by simp
  from Generate_loop_bound[OF ne, of c rnd n 0 "[]"]
  obtain ws where ws:
    "Generate_loop c rnd n 0 (replicate (nat (prefixLen c)) sentinel) [] = Inr ws"
    "int (length ws) \<le> max 0 n"
    "int (length ws) < n \<longrightarrow>
       suffixes_of (chain c)
         (String (drop (length ws) (replicate (nat (prefixLen c)) sentinel @ ws))) = []"
    by auto
  have "Generate_words c n rnd = Inr ws"
    using a ws(1) by (simp add: Generate_words_def startPrefix_def)
  then show "\<exists>ws. Generate_words c n rnd = Inr ws \<and> Generate c n rnd = Inr (Join ws '' '')
      \<and> length ws \<le> nat n
      \<and> (length ws < nat n \<longrightarrow>
           suffixes_of (chain c)
             (String (drop (length ws) (replicate (nat (prefixLen c)) sentinel @ ws))) = [])
      \<and> (n = 0 \<longrightarrow> ws = [])"
    using ws(2,3) assms by (intro exI[of _ ws]) (auto simp: Generate_def)
next
  assume a: "prefixLen c = 0 \<and> (n = 0 \<or> suffixes_of (chain c) (String []) = [])"
  then show w: "Generate_words c n rnd = Inr []"
    by (auto simp: Generate_words_def startPrefix_def maxAlloc_def Generate_loop.simps[of c rnd n 0])
  then show "Generate c n rnd = Inr []"
    by (simp add: Generate_def)
next
  assume a: "prefixLen c = 0 \<and> 0 < n \<and> suffixes_of (chain c) (String []) \<noteq> []"
  then have "Generate_words c n rnd = Inl (SliceBoundsOutOfRange 1 0)"
    by (simp add: Generate_words_def startPrefix_def maxAlloc_def Generate_loop.simps[of c rnd n 0]
          Shift_Nil Let_def)
  then show "Generate c n rnd = Inl (SliceBoundsOutOfRange 1 0)"
    by (simp add: Generate_def)
next
  assume a: "prefixLen c < 0 \<or> maxAlloc < prefixLen c * stringSize"
  from startPrefix_panic[OF a] show "Generate c n rnd = Inl MakesliceLenOutOfRange"
    by (simp add: Generate_def Generate_words_def)
qed

text \<open>
  In the chain \<open>walk_chain\<close> the walk of the choices \<open>id\<close> ends after two words, at the
  prefix \<^verbatim>\<open>was\<close>. The chain \<open>no_prefix_chain\<close>, whose \<open>prefixLen\<close> is 0, gives the empty
  output for \<open>n = 0\<close> and panics for \<open>n = 1\<close>; the empty chain of \<open>prefixLen\<close> 0 gives the
  empty output for every \<open>n\<close>.
\<close>

theorem Generate_bound_witness:
  "1 \<le> prefixLen walk_chain \<and> prefixLen walk_chain * stringSize \<le> maxAlloc
   \<and> (\<exists>ws. Generate_words walk_chain 5 id = Inr ws \<and> Generate walk_chain 5 id = Inr (Join ws '' '')
           \<and> length ws \<le> nat 5
           \<and> (length ws < nat 5 \<longrightarrow>
                suffixes_of (chain walk_chain)
                  (String (drop (length ws) (replicate (nat (prefixLen walk_chain)) sentinel @ ws))) = [])
           \<and> (5 = (0::int) \<longrightarrow> ws = []))
   \<and> Generate walk_chain 5 id = Inr ''I was''
   \<and> Generate walk_chain 1 id = Inr ''I''
   \<and> Generate walk_chain 0 id = Inr []
   \<and> Generate no_prefix_chain 0 id = Inr []
   \<and> Generate (NewChain 0) 5 id = Inr []
   \<and> Generate no_prefix_chain 1 id = Inl (SliceBoundsOutOfRange 1 0)
   \<and> Generate (NewChain 4611686018427387904) 5 id = Inl MakesliceLenOutOfRange"
proof -
  have h: "1 \<le> prefixLen walk_chain \<and> prefixLen walk_chain * stringSize \<le> maxAlloc"
    by (simp add: walk_chain_def stringSize_def maxAlloc_def)
  have ev: "Generate walk_chain 5 id = Inr ''I was''" "Generate walk_chain 1 id = Inr ''I''"
      "Generate walk_chain 0 id = Inr []"
    by (simp_all add: walk_chain_def Generate_def Generate_words_def eval_defs)
  have n5: "(0::int) \<le> 5" and n0: "(0::int) \<le> 0" and n1: "(0::int) \<le> 1" by simp_all
  have p0: "prefixLen no_prefix_chain = 0 \<and> ((0::int) = 0 \<or> suffixes_of (chain no_prefix_chain) (String []) = [])"
    by (simp add: no_prefix_chain_def)
  have p1: "prefixLen (NewChain 0) = 0 \<and> ((5::int) = 0 \<or> suffixes_of (chain (NewChain 0)) (String []) = [])"
    by (simp add: NewChain_def suffixes_of_def)
  have p2: "prefixLen no_prefix_chain = 0 \<and> (0::int) < 1 \<and> suffixes_of (chain no_prefix_chain) (String []) \<noteq> []"
    by (simp add: no_prefix_chain_def suffixes_of_def String_def)
  have p3: "maxAlloc < prefixLen (NewChain 4611686018427387904) * stringSize"
    by (simp add: NewChain_def stringSize_def maxAlloc_def)
  from Generate_bound [OF n5, of walk_chain id] h
  have a: "\<exists>ws. Generate_words walk_chain 5 id = Inr ws \<and> Generate walk_chain 5 id = Inr (Join ws '' '')
           \<and> length ws \<le> nat 5
           \<and> (length ws < nat 5 \<longrightarrow>
                suffixes_of (chain walk_chain)
                  (String (drop (length ws) (replicate (nat (prefixLen walk_chain)) sentinel @ ws))) = [])
           \<and> (5 = (0::int) \<longrightarrow> ws = [])" by blast
  from Generate_bound [OF n0, of no_prefix_chain id] p0
  have b: "Generate no_prefix_chain 0 id = Inr []" by blast
  from Generate_bound [OF n5, of "NewChain 0" id] p1
  have c: "Generate (NewChain 0) 5 id = Inr []" by blast
  from Generate_bound [OF n1, of no_prefix_chain id] p2
  have d: "Generate no_prefix_chain 1 id = Inl (SliceBoundsOutOfRange 1 0)" by blast
  from Generate_bound [OF n5, of "NewChain 4611686018427387904" id] p3
  have e: "Generate (NewChain 4611686018427387904) 5 id = Inl MakesliceLenOutOfRange" by blast
  from h show ?thesis by (intro conjI a b c d e ev) simp_all
qed

subsection \<open>C4: the sum of the counts\<close>

text \<open>
  Claim C4 says that the table built from a stream of \<open>L\<close> tokens, with a \<open>prefixLen\<close> of 1
  or more and from the empty table, has counts that sum to \<open>L\<close>. \<^verbatim>\<open>FileToFreqTable\<close> does
  not count every token: it reads the words with a \<^verbatim>\<open>bufio.Scanner\<close>, whose \<^verbatim>\<open>Scan\<close>
  returns false at a word that does not fit its buffer of \<^verbatim>\<open>MaxScanTokenSize\<close> (65536)
  bytes, and the loop ends there as at the end of the file, since \<^verbatim>\<open>scanner.Err()\<close> is
  never looked at. \<^verbatim>\<open>Build\<close>, which reads with \<^verbatim>\<open>fmt.Fscan\<close>, counts every token of the same
  input.

  The input \<open>big_input\<close> has four tokens, the second of 65536 bytes. With prefixes of one
  word \<^verbatim>\<open>FileToFreqTable\<close> returns, without a panic, the table \<open>cut_chain\<close> that counts the
  first token only: its counts sum to 1. \<^verbatim>\<open>Build\<close> returns the table \<open>big_chain\<close>, whose
  counts sum to 4.
\<close>

theorem count_conservation_long_word:
  "tokens big_input = [''x'', big_word, ''y'', ''z'']
   \<and> FileToFreqTable (NewChain 1) (Some big_input) = Inr cut_chain
   \<and> total_count (freqTable cut_chain) = 1
   \<and> Build (NewChain 1) big_input = Inr big_chain
   \<and> total_count (freqTable big_chain) = 4"
proof -
  have k: "(1::int) \<le> 1" "1 * stringSize \<le> maxAlloc"
    by (simp_all add: stringSize_def maxAlloc_def)
  from add_words_total[OF k, of "Scanner_words big_input"]
  have "total_count (freqTable cut_chain) = 1"
    using FileToFreqTable_big_input
    by (auto simp: FileToFreqTable_def Scanner_words_big_input MaxInt_def)
  moreover from add_words_total[OF k, of "Fscan_words big_input"]
  have "total_count (freqTable big_chain) = 4"
    using Build_big_input
    by (auto simp: Build_def Fscan_words_big_input MaxInt_def)
  ultimately show ?thesis
    using tokens_big_input FileToFreqTable_big_input Build_big_input by simp
qed

text \<open>
  What the code does keep. The number \<open>L\<close> of tokens of an input is the length of the token
  stream of the specification, \<open>tokens input\<close>, which is defined without the readers of the
  program. \<^verbatim>\<open>Build\<close>, started on the empty table of \<^verbatim>\<open>NewChain(k)\<close> with a \<open>k \<ge> 1\<close> that
  \<^verbatim>\<open>make\<close> accepts, returns for every input of fewer than \<^verbatim>\<open>hugeWid\<close> bytes, which no call of
  \<^verbatim>\<open>Fscan\<close> cuts, a table whose counts sum to \<open>L\<close>: every token adds 1 to one count, the
  first \<open>k\<close> tokens too, whose prefixes hold the sentinel. \<open>L\<close> is a length that an \<^verbatim>\<open>int\<close>
  holds, as every length in Go is; no count reaches the end of the range of \<^verbatim>\<open>int\<close> then,
  where \<^verbatim>\<open>val[s]++\<close> would wrap.
\<close>

theorem count_conservation_Build:
  assumes "1 \<le> k" and "k * stringSize \<le> maxAlloc" and "int (length (tokens input)) \<le> MaxInt"
      and "length input < hugeWid"
  shows "\<exists>c'. Build (NewChain k) input = Inr c'
           \<and> total_count (freqTable c') = int (length (tokens input))"
  using add_words_total[OF assms(1,2), of "Fscan_words input"] assms(3)
  by (auto simp: Build_def length_Fscan_words[OF assms(4)])

text \<open>The ten words of \<^verbatim>\<open>I am not a number I am a free man\<close> with prefixes of two words.\<close>

theorem count_conservation_Build_witness:
  "tokens ''I am not a number I am a free man'' =
     [''I'', ''am'', ''not'', ''a'', ''number'', ''I'', ''am'', ''a'', ''free'', ''man'']
   \<and> (\<exists>c'. Build (NewChain 2) ''I am not a number I am a free man'' = Inr c'
          \<and> total_count (freqTable c') = 10
          \<and> freqTable c' ''I am'' = Some [''not'' \<mapsto> 1, ''a'' \<mapsto> 1]
          \<and> freqTable c' ''am a'' = Some [''free'' \<mapsto> 1])"
proof -
  let ?input = "''I am not a number I am a free man''"
  have toks: "tokens ?input =
      [''I'', ''am'', ''not'', ''a'', ''number'', ''I'', ''am'', ''a'', ''free'', ''man'']"
    by (simp add: tokens_words_after words_after_ascii words_after_end isSpace_def
          del: runes.simps(2))
  have words: "Fscan_words ?input =
      [''I'', ''am'', ''not'', ''a'', ''number'', ''I'', ''am'', ''a'', ''free'', ''man'']"
    by (simp add: Fscan_words_def fscan_words_ascii isSpace_def hugeWid_def
          del: fscan_words.simps(2))
  have h: "(1::int) \<le> 2" "2 * stringSize \<le> maxAlloc" "int (length (tokens ?input)) \<le> MaxInt"
      "length ?input < hugeWid"
    by (simp_all add: toks MaxInt_def stringSize_def maxAlloc_def hugeWid_def)
  from count_conservation_Build [OF h]
  obtain c' where c': "Build (NewChain 2) ?input = Inr c'"
      "total_count (freqTable c') = int (length (tokens ?input))" by auto
  have "freqTable c' ''I am'' = Some [''not'' \<mapsto> 1, ''a'' \<mapsto> 1]
        \<and> freqTable c' ''am a'' = Some [''free'' \<mapsto> 1]"
    using c'(1)
    by (auto simp: Build_def words startPrefix_def maxAlloc_def stringSize_def NewChain_def
          add_word_Cons String_def sentinel_def suffixes_of_def count_of_def wrap_def
          eval_nat_numeral)
  with toks c' show ?thesis by auto
qed


text \<open>
  \<^verbatim>\<open>FileToFreqTable\<close> does the same for every input whose tokens leave room in the buffer
  of the scanner for the white space after them (a rune of at most 4 bytes).
\<close>

theorem count_conservation_FileToFreqTable:
  assumes "1 \<le> k" and "k * stringSize \<le> maxAlloc" and "int (length (tokens input)) \<le> MaxInt"
      and "\<forall>t\<in>set (tokens input). length t + 4 \<le> MaxScanTokenSize"
  shows "\<exists>c'. FileToFreqTable (NewChain k) (Some input) = Inr c'
           \<and> total_count (freqTable c') = int (length (tokens input))"
  using add_words_total[OF assms(1,2), of "tokens input"] assms(3)
  by (auto simp: FileToFreqTable_def Scanner_words_tokens[OF assms(4)])

text \<open>The same ten words, read from a file.\<close>

theorem count_conservation_FileToFreqTable_witness:
  "tokens ''I am not a number I am a free man'' =
     [''I'', ''am'', ''not'', ''a'', ''number'', ''I'', ''am'', ''a'', ''free'', ''man'']
   \<and> (\<exists>c'. FileToFreqTable (NewChain 2) (Some ''I am not a number I am a free man'') = Inr c'
          \<and> total_count (freqTable c') = 10
          \<and> freqTable c' ''I am'' = Some [''not'' \<mapsto> 1, ''a'' \<mapsto> 1]
          \<and> freqTable c' ''am a'' = Some [''free'' \<mapsto> 1])"
proof -
  let ?input = "''I am not a number I am a free man''"
  have toks: "tokens ?input =
      [''I'', ''am'', ''not'', ''a'', ''number'', ''I'', ''am'', ''a'', ''free'', ''man'']"
    by (simp add: tokens_words_after words_after_ascii words_after_end isSpace_def
          del: runes.simps(2))
  have words: "Scanner_words ?input =
      [''I'', ''am'', ''not'', ''a'', ''number'', ''I'', ''am'', ''a'', ''free'', ''man'']"
    by (simp add: Scanner_words_def scan_words_ascii isSpace_def MaxScanTokenSize_def
          del: scan_words.simps(2))
  have h: "(1::int) \<le> 2" "2 * stringSize \<le> maxAlloc" "int (length (tokens ?input)) \<le> MaxInt"
      "\<forall>t\<in>set (tokens ?input). length t + 4 \<le> MaxScanTokenSize"
    by (simp_all add: toks MaxInt_def stringSize_def maxAlloc_def MaxScanTokenSize_def)
  from count_conservation_FileToFreqTable [OF h]
  obtain c' where c': "FileToFreqTable (NewChain 2) (Some ?input) = Inr c'"
      "total_count (freqTable c') = int (length (tokens ?input))" by auto
  have "freqTable c' ''I am'' = Some [''not'' \<mapsto> 1, ''a'' \<mapsto> 1]
        \<and> freqTable c' ''am a'' = Some [''free'' \<mapsto> 1]"
    using c'(1)
    by (auto simp: FileToFreqTable_def words startPrefix_def maxAlloc_def stringSize_def
          NewChain_def add_word_Cons String_def sentinel_def suffixes_of_def count_of_def wrap_def
          eval_nat_numeral)
  with toks c' show ?thesis by auto
qed

subsection \<open>C5: a line with an odd number of fields after the prefix\<close>

text \<open>
  Claim C5 says that a data line with an odd number of fields after the prefix makes the
  decoding fail, where the fields of a line are what splitting on white space gives
  (section 4.3 of the specification). It fails for a line in which two spaces are
  adjacent: the line \<^verbatim>\<open>a b 1  2\<close> has four fields between white space, three of them after
  the prefix \<^verbatim>\<open>a\<close>, but \<^verbatim>\<open>FreqTableFromFreqFile\<close> cuts a line at every single space
  (\<^verbatim>\<open>strings.Split(line, " ")\<close>), finds the five items \<^verbatim>\<open>a\<close>, \<^verbatim>\<open>b\<close>, \<^verbatim>\<open>1\<close>, the empty string
  and \<^verbatim>\<open>2\<close>, and returns a table in which the empty string is a suffix with the count 2.
\<close>

theorem odd_remainder_rejected_counterexample:
  "tokens ''a b 1  2'' = [''a'', ''b'', ''1'', ''2'']
   \<and> Scanner_lines ''1\<newline>a b 1  2\<newline>'' = [''1'', ''a b 1  2'']
   \<and> FreqFile_lines (NewChain 0) [''1''] = Inr (NewChain 1)
   \<and> Split ''a b 1  2'' (CHR '' '') = [''a'', ''b'', ''1'', [], ''2'']
   \<and> FreqTableFromFreqFile (Some ''1\<newline>a b 1  2\<newline>'') =
       Inr \<lparr>chain = Map.empty, prefixLen = 1, freqTable = [''a'' \<mapsto> [''b'' \<mapsto> 1, [] \<mapsto> 2]]\<rparr>"
proof -
  have "tokens ''a b 1  2'' = [''a'', ''b'', ''1'', ''2'']"
    by (simp add: tokens_words_after words_after_ascii words_after_end isSpace_def
          del: runes.simps(2))
  then show ?thesis
    by (simp add: FreqTableFromFreqFile_def eval_defs)
qed

text \<open>
  Claim C5, amended. The fields of a line are the items that \<^verbatim>\<open>strings.Split(line, " ")\<close>
  gives: the pieces between single spaces, an empty piece between two adjacent spaces
  among them. Let the loop of \<^verbatim>\<open>FreqTableFromFreqFile\<close> reach a line of the file (the lines
  \<open>pre\<close> before it are read without a panic and leave the chain \<open>c\<close>) that has more than
  one such field and an odd number of them beyond the first \<open>prefixLen c\<close>. Then
  \<^verbatim>\<open>FreqTableFromFreqFile\<close> panics: it returns no chain, so no table with entries of the
  file. The panic is the runtime's (an index out of range, when the loop reads the count
  of the last pair or a field of the prefix) or the program's own, when the count of an
  earlier pair is no integer.
\<close>

theorem odd_remainder_rejected:
  assumes "Scanner_lines content = pre @ line # post"
      and "FreqFile_lines (NewChain 0) pre = Inr c"
      and "length (Split line (CHR '' '')) > 1"
      and "odd (int (length (Split line (CHR '' ''))) - prefixLen c)"
  shows "\<exists>e. FreqTableFromFreqFile (Some content) = Inl e"
proof -
  have "FreqTableFromFreqFile (Some content) = FreqFile_lines c (line # post)"
    using assms(1,2) by (simp add: FreqTableFromFreqFile_def FreqFile_lines_append)
  moreover obtain e where "FreqFile_line c line = Inl e"
    using FreqFile_line_odd[OF assms(3,4)] ..
  ultimately show ?thesis by simp
qed

text \<open>
  The file of the three lines \<^verbatim>\<open>1\<close>, \<^verbatim>\<open>a b 1 c\<close> and \<^verbatim>\<open>d e 2\<close>: the second line has three
  fields after its prefix \<^verbatim>\<open>a\<close>.
\<close>

theorem odd_remainder_rejected_witness:
  "Scanner_lines ''1\<newline>a b 1 c\<newline>d e 2\<newline>'' = [''1''] @ ''a b 1 c'' # [''d e 2'']
   \<and> FreqFile_lines (NewChain 0) [''1''] = Inr (NewChain 1)
   \<and> length (Split ''a b 1 c'' (CHR '' '')) = 4
   \<and> (\<exists>e. FreqTableFromFreqFile (Some ''1\<newline>a b 1 c\<newline>d e 2\<newline>'') = Inl e)
   \<and> FreqTableFromFreqFile (Some ''1\<newline>a b 1 c\<newline>d e 2\<newline>'') = Inl (IndexOutOfRange 4 4)"
proof -
  have h1: "Scanner_lines ''1\<newline>a b 1 c\<newline>d e 2\<newline>'' = [''1''] @ ''a b 1 c'' # [''d e 2'']"
    by (simp add: eval_defs)
  have h2: "FreqFile_lines (NewChain 0) [''1''] = Inr (NewChain 1)"
    by (simp add: eval_defs)
  have h3: "length (Split ''a b 1 c'' (CHR '' '')) = 4"
    by simp
  have ev: "FreqTableFromFreqFile (Some ''1\<newline>a b 1 c\<newline>d e 2\<newline>'') = Inl (IndexOutOfRange 4 4)"
    by (simp add: FreqTableFromFreqFile_def eval_defs)
  show ?thesis
    by (intro conjI h1 h2 h3 ev odd_remainder_rejected [OF h1 h2]) (simp_all add: NewChain_def)
qed

subsection \<open>C6: a prefix length of 0\<close>

text \<open>
  Claim C6 says that with \<open>prefixLen = 0\<close> every \<^verbatim>\<open>Shift\<close> during the reading succeeds and
  every token is counted under the one empty key. It fails: on the empty window the slice
  expression \<^verbatim>\<open>p[1:]\<close> of \<^verbatim>\<open>Shift\<close> is out of range, and \<^verbatim>\<open>Build\<close> and \<^verbatim>\<open>FileToFreqTable\<close>
  panic at the first word of the input.
\<close>

theorem ingestion_needs_nonempty_window_counterexample:
  "Shift [] ''a'' = Inl (SliceBoundsOutOfRange 1 0)
   \<and> Fscan_words ''a b'' = [''a'', ''b'']
   \<and> Build (NewChain 0) ''a b'' = Inl (SliceBoundsOutOfRange 1 0)
   \<and> FileToFreqTable (NewChain 0) (Some ''a b'') = Inl (SliceBoundsOutOfRange 1 0)"
  by (simp add: Build_def FileToFreqTable_def eval_defs)

text \<open>
  Claim C6, amended. A prefix length of 0 is not legal for the reading of an input (the
  program's \<^verbatim>\<open>main\<close> refuses a prefix length below 1, and a \<^verbatim>\<open>Prefix\<close> is documented as
  one or more words): with \<open>prefixLen = 0\<close> the first \<^verbatim>\<open>Shift\<close> panics, so \<^verbatim>\<open>Build\<close> and
  \<^verbatim>\<open>FileToFreqTable\<close> panic on every input of which their reader delivers a word, which
  for \<^verbatim>\<open>Build\<close> is every input of fewer than \<^verbatim>\<open>hugeWid\<close> bytes that has a token; an input
  without a word leaves the chain as it is. With a \<open>prefixLen\<close> from 1 to \<open>2 ^ 44\<close>, the longest window that \<^verbatim>\<open>make\<close>
  accepts, every \<^verbatim>\<open>Shift\<close> succeeds, and both return a chain for every input. With a
  longer or a negative \<open>prefixLen\<close> both panic in \<^verbatim>\<open>make\<close>, before a word is read.
\<close>

theorem ingestion_needs_nonempty_window:
  "(1 \<le> prefixLen c \<and> prefixLen c * stringSize \<le> maxAlloc \<longrightarrow>
       (\<exists>c'. Build c input = Inr c') \<and> (\<exists>c'. FileToFreqTable c (Some input) = Inr c'))
   \<and> (prefixLen c = 0 \<and> Fscan_words input \<noteq> [] \<longrightarrow>
       Build c input = Inl (SliceBoundsOutOfRange 1 0))
   \<and> (prefixLen c = 0 \<and> Scanner_words input \<noteq> [] \<longrightarrow>
       FileToFreqTable c (Some input) = Inl (SliceBoundsOutOfRange 1 0))
   \<and> (prefixLen c = 0 \<and> tokens input \<noteq> [] \<and> length input < hugeWid \<longrightarrow>
       Build c input = Inl (SliceBoundsOutOfRange 1 0))
   \<and> (prefixLen c = 0 \<and> tokens input = [] \<and> length input < hugeWid \<longrightarrow>
       Build c input = Inr c \<and> FileToFreqTable c (Some input) = Inr c)
   \<and> (prefixLen c < 0 \<or> maxAlloc < prefixLen c * stringSize \<longrightarrow>
       Build c input = Inl MakesliceLenOutOfRange
       \<and> FileToFreqTable c (Some input) = Inl MakesliceLenOutOfRange)"
proof (intro conjI impI)
  assume "1 \<le> prefixLen c \<and> prefixLen c * stringSize \<le> maxAlloc"
  then obtain p where p: "startPrefix (prefixLen c) = Inr p" "p \<noteq> []"
    using startPrefix_pos by blast
  from add_words_nonempty[OF p(2), of c "Fscan_words input"]
  show "\<exists>c'. Build c input = Inr c'" using p(1) by (auto simp: Build_def)
  from add_words_nonempty[OF p(2), of c "Scanner_words input"]
  show "\<exists>c'. FileToFreqTable c (Some input) = Inr c'" using p(1) by (auto simp: FileToFreqTable_def)
next
  assume "prefixLen c = 0 \<and> Fscan_words input \<noteq> []"
  then show "Build c input = Inl (SliceBoundsOutOfRange 1 0)"
    by (simp add: Build_def startPrefix_def maxAlloc_def add_words_Nil)
next
  assume "prefixLen c = 0 \<and> Scanner_words input \<noteq> []"
  then show "FileToFreqTable c (Some input) = Inl (SliceBoundsOutOfRange 1 0)"
    by (simp add: FileToFreqTable_def startPrefix_def maxAlloc_def add_words_Nil)
next
  assume "prefixLen c = 0 \<and> tokens input \<noteq> [] \<and> length input < hugeWid"
  moreover then have "Fscan_words input \<noteq> []"
    using length_Fscan_words[of input] by auto
  ultimately show "Build c input = Inl (SliceBoundsOutOfRange 1 0)"
    by (simp add: Build_def startPrefix_def maxAlloc_def add_words_Nil)
next
  assume a: "prefixLen c = 0 \<and> tokens input = [] \<and> length input < hugeWid"
  then have "Fscan_words input = []"
    using length_Fscan_words[of input] by auto
  with a show "Build c input = Inr c"
    by (simp add: Build_def startPrefix_def maxAlloc_def)
  from a Scanner_words_prefix[of input] have "Scanner_words input = []" by auto
  with a show "FileToFreqTable c (Some input) = Inr c"
    by (simp add: FileToFreqTable_def startPrefix_def maxAlloc_def)
next
  assume a: "prefixLen c < 0 \<or> maxAlloc < prefixLen c * stringSize"
  from startPrefix_panic[OF a] show "Build c input = Inl MakesliceLenOutOfRange"
    by (simp add: Build_def)
  from startPrefix_panic[OF a] show "FileToFreqTable c (Some input) = Inl MakesliceLenOutOfRange"
    by (simp add: FileToFreqTable_def)
qed

text \<open>
  The input \<^verbatim>\<open>a b\<close> with the prefix lengths 1, 0 and \<open>2 ^ 62\<close>, and the empty input with the
  prefix length 0.
\<close>

theorem ingestion_needs_nonempty_window_witness:
  "(\<exists>c'. Build (NewChain 1) ''a b'' = Inr c') \<and> (\<exists>c'. FileToFreqTable (NewChain 1) (Some ''a b'') = Inr c')
   \<and> Build (NewChain 1) ''a b'' =
       Inr \<lparr>chain = [sentinel \<mapsto> [''a''], ''a'' \<mapsto> [''b'']], prefixLen = 1,
            freqTable = [sentinel \<mapsto> [''a'' \<mapsto> 1], ''a'' \<mapsto> [''b'' \<mapsto> 1]]\<rparr>
   \<and> tokens ''a b'' = [''a'', ''b'']
   \<and> Build (NewChain 0) ''a b'' = Inl (SliceBoundsOutOfRange 1 0)
   \<and> FileToFreqTable (NewChain 0) (Some ''a b'') = Inl (SliceBoundsOutOfRange 1 0)
   \<and> Build (NewChain 0) [] = Inr (NewChain 0)
   \<and> FileToFreqTable (NewChain 0) (Some []) = Inr (NewChain 0)
   \<and> Build (NewChain 4611686018427387904) ''a b'' = Inl MakesliceLenOutOfRange
   \<and> FileToFreqTable (NewChain 4611686018427387904) (Some ''a b'') = Inl MakesliceLenOutOfRange"
proof -
  have ev: "Build (NewChain 1) ''a b'' =
       Inr \<lparr>chain = [sentinel \<mapsto> [''a''], ''a'' \<mapsto> [''b'']], prefixLen = 1,
            freqTable = [sentinel \<mapsto> [''a'' \<mapsto> 1], ''a'' \<mapsto> [''b'' \<mapsto> 1]]\<rparr>"
    by (simp add: Build_def eval_defs)
  have t: "tokens ''a b'' = [''a'', ''b'']" and t0: "tokens [] = []"
    by (simp_all add: tokens_words_after words_after_ascii words_after_end isSpace_def
          del: runes.simps(2))
  have w: "Fscan_words ''a b'' \<noteq> []" "Scanner_words ''a b'' \<noteq> []" by (simp_all add: eval_defs)
  have l: "length ''a b'' < hugeWid" "length ([] :: string) < hugeWid"
    by (simp_all add: hugeWid_def)
  have p1: "1 \<le> prefixLen (NewChain 1) \<and> prefixLen (NewChain 1) * stringSize \<le> maxAlloc"
    and p0: "prefixLen (NewChain 0) = 0"
    and p2: "maxAlloc < prefixLen (NewChain 4611686018427387904) * stringSize"
    by (simp_all add: NewChain_def stringSize_def maxAlloc_def)
  from ingestion_needs_nonempty_window [of "NewChain 1" "''a b''"] p1
  have a: "\<exists>c'. Build (NewChain 1) ''a b'' = Inr c'"
    and b: "\<exists>c'. FileToFreqTable (NewChain 1) (Some ''a b'') = Inr c'" by blast+
  from ingestion_needs_nonempty_window [of "NewChain 0" "''a b''"] p0 w t l
  have c: "Build (NewChain 0) ''a b'' = Inl (SliceBoundsOutOfRange 1 0)"
    and d: "FileToFreqTable (NewChain 0) (Some ''a b'') = Inl (SliceBoundsOutOfRange 1 0)" by blast+
  from ingestion_needs_nonempty_window [of "NewChain 0" "[]"] p0 t0 l
  have e: "Build (NewChain 0) [] = Inr (NewChain 0)"
    and f: "FileToFreqTable (NewChain 0) (Some []) = Inr (NewChain 0)" by blast+
  from ingestion_needs_nonempty_window [of "NewChain 4611686018427387904" "''a b''"] p2
  have g: "Build (NewChain 4611686018427387904) ''a b'' = Inl MakesliceLenOutOfRange"
    and h: "FileToFreqTable (NewChain 4611686018427387904) (Some ''a b'') = Inl MakesliceLenOutOfRange"
    by blast+
  show ?thesis by (intro conjI a b c d e f g h ev t)
qed

subsection \<open>C7: the count fields of a line\<close>

text \<open>
  Claim C7 says that a count field must be a non-negative integer and that a negative one
  makes the decoding fail. It fails: \<^verbatim>\<open>strconv.Atoi\<close> reads a sign, and the loop stores
  what it returns. The file of the lines \<^verbatim>\<open>1\<close> and \<^verbatim>\<open>a b -5\<close> is read without a panic,
  into a table with the count \<open>-5\<close>.
\<close>

theorem count_field_must_be_integer_counterexample:
  "Atoi ''-5'' = Inr (- 5)
   \<and> FreqTableFromFreqFile (Some ''1\<newline>a b -5\<newline>'') =
       Inr \<lparr>chain = Map.empty, prefixLen = 1, freqTable = [''a'' \<mapsto> [''b'' \<mapsto> - 5]]\<rparr>"
  by (simp add: FreqTableFromFreqFile_def eval_defs)

text \<open>
  Claim C7, amended. Let the loop of \<^verbatim>\<open>FreqTableFromFreqFile\<close> reach a line of the fields
  \<open>ws\<close>, as many as \<open>prefixLen\<close>, followed by the pairs \<open>ps\<close> of a suffix and a count field.
  When every count field is an integer for \<^verbatim>\<open>strconv.Atoi\<close> (an optional sign and decimal
  digits, in the range of \<^verbatim>\<open>int\<close>), the line is read and every count is stored as
  converted, a negative one too. When some count field is no integer, the decoding
  panics: no other value is put in its place.
\<close>

theorem count_field_must_be_integer:
  assumes "Scanner_lines content = pre @ Join (ws @ flat ps) '' '' # post"
      and "FreqFile_lines (NewChain 0) pre = Inr c"
      and "prefixLen c = int (length ws)"
      and "\<forall>w\<in>set ws. CHR '' '' \<notin> set w"
      and "\<forall>(s, f)\<in>set ps. CHR '' '' \<notin> set s \<and> CHR '' '' \<notin> set f"
      and "1 < length ws + 2 * length ps"
  shows "FreqTableFromFreqFile (Some content) =
     (if list_all (\<lambda>(s, f). parses f) ps
      then FreqFile_lines
             (c\<lparr>freqTable := (freqTable c)
                   (String ws \<mapsto> foldl (\<lambda>m (s, f). m(s \<mapsto> int_of f)) Map.empty ps)\<rparr>) post
      else Inl (Panic ''Could not convert string to integer''))"
proof -
  have "FreqTableFromFreqFile (Some content) =
          FreqFile_lines c (Join (ws @ flat ps) '' '' # post)"
    using assms(1,2) by (simp add: FreqTableFromFreqFile_def FreqFile_lines_append)
  then show ?thesis
    by (simp add: FreqFile_line_pairs[OF assms(3-6)])
qed

text \<open>
  The lines \<^verbatim>\<open>a b -5 c 2\<close> and \<^verbatim>\<open>a b -5 c x\<close> after the line \<^verbatim>\<open>1\<close>: the first is read with
  its negative count, the second panics at the field \<^verbatim>\<open>x\<close>.
\<close>

theorem count_field_must_be_integer_witness:
  "Scanner_lines ''1\<newline>a b -5 c 2\<newline>'' = [''1''] @ Join ([''a''] @ flat [(''b'', ''-5''), (''c'', ''2'')]) '' '' # []
   \<and> Scanner_lines ''1\<newline>a b -5 c x\<newline>'' = [''1''] @ Join ([''a''] @ flat [(''b'', ''-5''), (''c'', ''x'')]) '' '' # []
   \<and> FreqFile_lines (NewChain 0) [''1''] = Inr (NewChain 1)
   \<and> FreqTableFromFreqFile (Some ''1\<newline>a b -5 c 2\<newline>'') =
       Inr \<lparr>chain = Map.empty, prefixLen = 1, freqTable = [''a'' \<mapsto> [''b'' \<mapsto> - 5, ''c'' \<mapsto> 2]]\<rparr>
   \<and> FreqTableFromFreqFile (Some ''1\<newline>a b -5 c x\<newline>'') =
       Inl (Panic ''Could not convert string to integer'')"
proof -
  have l1: "Scanner_lines ''1\<newline>a b -5 c 2\<newline>'' =
      [''1''] @ Join ([''a''] @ flat [(''b'', ''-5''), (''c'', ''2'')]) '' '' # []"
    and l2: "Scanner_lines ''1\<newline>a b -5 c x\<newline>'' =
      [''1''] @ Join ([''a''] @ flat [(''b'', ''-5''), (''c'', ''x'')]) '' '' # []"
    by (simp_all add: eval_defs)
  have pre: "FreqFile_lines (NewChain 0) [''1''] = Inr (NewChain 1)"
    by (simp add: eval_defs)
  have len: "prefixLen (NewChain 1) = int (length [''a''])"
    by (simp add: NewChain_def)
  have r1: "FreqTableFromFreqFile (Some ''1\<newline>a b -5 c 2\<newline>'') =
       Inr \<lparr>chain = Map.empty, prefixLen = 1, freqTable = [''a'' \<mapsto> [''b'' \<mapsto> - 5, ''c'' \<mapsto> 2]]\<rparr>"
    using count_field_must_be_integer [OF l1 pre len]
    by (simp add: eval_defs)
  have r2: "FreqTableFromFreqFile (Some ''1\<newline>a b -5 c x\<newline>'') =
       Inl (Panic ''Could not convert string to integer'')"
    using count_field_must_be_integer [OF l2 pre len]
    by (simp add: eval_defs)
  show ?thesis by (intro conjI l1 l2 pre r1 r2)
qed

subsection \<open>C8: the lines of the encoded table\<close>



subsection \<open>C9: the sentinel and the words of the input\<close>

text \<open>
  Claim C9 says that no token of an input equals the sentinel. It fails: the sentinel is
  the string of the two bytes \<^verbatim>\<open>""\<close>, which holds no white space, so an input in which
  the word \<^verbatim>\<open>""\<close> stands has it as a token, and \<^verbatim>\<open>fmt.Fscan\<close> and the scanner deliver it.
  In the table built from the two words \<^verbatim>\<open>""\<close> and \<^verbatim>\<open>a\<close> the first window and the window
  after the first word have the same key.
\<close>

theorem sentinel_collision_counterexample:
  "tokens (sentinel @ '' a'') = [sentinel, ''a'']
   \<and> Fscan_words (sentinel @ '' a'') = [sentinel, ''a'']
   \<and> Scanner_words (sentinel @ '' a'') = [sentinel, ''a'']
   \<and> Build (NewChain 1) (sentinel @ '' a'') =
       Inr \<lparr>chain = [sentinel \<mapsto> [sentinel, ''a'']], prefixLen = 1,
            freqTable = [sentinel \<mapsto> [sentinel \<mapsto> 1, ''a'' \<mapsto> 1]]\<rparr>"
proof -
  have "tokens (sentinel @ '' a'') = [sentinel, ''a'']"
    by (simp add: tokens_words_after sentinel_def words_after_ascii words_after_end isSpace_def
          del: runes.simps(2))
  then show ?thesis
    by (simp add: Build_def eval_defs)
qed

text \<open>
  Claim C9, amended. The sentinel is the token \<^verbatim>\<open>""\<close>. For every input, a word that
  \<^verbatim>\<open>fmt.Fscan\<close> reads (in \<^verbatim>\<open>Build\<close>) or the scanner (in \<^verbatim>\<open>FileToFreqTable\<close>) equals the
  sentinel only where the input holds two adjacent bytes \<^verbatim>\<open>"\<close>. More precisely, a word of
  the scanner, and a word that \<^verbatim>\<open>fmt.Fscan\<close> reads from an input of fewer than \<^verbatim>\<open>hugeWid\<close>
  bytes (which no call of \<^verbatim>\<open>Fscan\<close> cuts), equals the sentinel only where the word \<^verbatim>\<open>""\<close>
  stands in the input as a token of its own, between white space or the ends of the
  input; and \<^verbatim>\<open>fmt.Fscan\<close> reads the sentinel from every such input of fewer than
  \<^verbatim>\<open>hugeWid\<close> bytes.
\<close>

theorem sentinel_collision:
  "(length input < hugeWid \<longrightarrow>
      (sentinel \<in> set (Fscan_words input) \<longleftrightarrow> sentinel \<in> set (tokens input)))
   \<and> (sentinel \<in> set (Scanner_words input) \<longrightarrow> sentinel \<in> set (tokens input))
   \<and> (sentinel \<in> set (tokens input) \<longrightarrow> (\<exists>pre post. input = pre @ sentinel @ post))
   \<and> (sentinel \<in> set (Fscan_words input) \<longrightarrow> (\<exists>pre post. input = pre @ sentinel @ post))"
proof (intro conjI impI)
  show "sentinel \<in> set (Fscan_words input) \<longleftrightarrow> sentinel \<in> set (tokens input)"
    if "length input < hugeWid"
    using that by (rule sentinel_Fscan_tokens)
  show "sentinel \<in> set (tokens input)" if "sentinel \<in> set (Scanner_words input)"
    using that Scanner_words_prefix[of input] by auto
  show "\<exists>pre post. input = pre @ sentinel @ post" if "sentinel \<in> set (tokens input)"
    using that by (rule tokens_substring)
  show "\<exists>pre post. input = pre @ sentinel @ post" if "sentinel \<in> set (Fscan_words input)"
    using that by (rule sentinel_Fscan_substring)
qed

text \<open>
  The input \<^verbatim>\<open>"" a\<close>, in which the sentinel stands as a word, and the input \<^verbatim>\<open>say "hi"\<close>,
  which holds the byte \<^verbatim>\<open>"\<close> and no token equal to the sentinel.
\<close>

theorem sentinel_collision_witness:
  "sentinel \<in> set (Scanner_words (sentinel @ '' a''))
   \<and> sentinel \<in> set (Fscan_words (sentinel @ '' a''))
   \<and> sentinel \<in> set (tokens (sentinel @ '' a''))
   \<and> (\<exists>pre post. sentinel @ '' a'' = pre @ sentinel @ post)
   \<and> tokens ''say \"hi\"'' = [''say'', ''\"hi\"'']
   \<and> sentinel \<notin> set (Fscan_words ''say \"hi\"'')
   \<and> sentinel \<notin> set (Scanner_words ''say \"hi\"'')"
proof -
  have t1: "tokens (sentinel @ '' a'') = [sentinel, ''a'']"
    by (simp add: tokens_words_after sentinel_def words_after_ascii words_after_end isSpace_def
          del: runes.simps(2))
  have s1: "sentinel \<in> set (Scanner_words (sentinel @ '' a''))"
    by (simp add: eval_defs)
  have t2: "tokens ''say \"hi\"'' = [''say'', ''\"hi\"'']"
    by (simp add: tokens_words_after words_after_ascii words_after_end isSpace_def
          del: runes.simps(2))
  have n2: "sentinel \<notin> set (tokens ''say \"hi\"'')"
    by (simp add: t2 sentinel_def)
  have m1: "sentinel \<in> set (tokens (sentinel @ '' a''))"
    by (simp add: t1)
  have l: "length (sentinel @ '' a'') < hugeWid" "length ''say \"hi\"'' < hugeWid"
    by (simp_all add: hugeWid_def sentinel_def)
  from sentinel_collision [of "sentinel @ '' a''"] sentinel_collision [of "''say \"hi\"''"]
    s1 m1 n2 t2 l
  show ?thesis by blast
qed

subsection \<open>C10: a line of one field\<close>

text \<open>
  Claim C10. Let the loop of \<^verbatim>\<open>FreqTableFromFreqFile\<close> reach a line of the file, the first
  or a later one, that has one field (no space in it). When the line is empty it is
  skipped. When it is not, the field is converted: an integer becomes the chain's
  \<open>prefixLen\<close>, with which the lines after it are read, whatever \<open>prefixLen\<close> was before;
  the line is rejected only when the field is no integer.
\<close>

theorem single_field_line_sets_prefixLen:
  assumes "Scanner_lines content = pre @ line # post"
      and "FreqFile_lines (NewChain 0) pre = Inr c"
      and "CHR '' '' \<notin> set line"
  shows "FreqTableFromFreqFile (Some content) =
           (if line = [] then FreqFile_lines c post
            else case Atoi line of
                   Inl err \<Rightarrow> Inl (Panic ''Could not convert string to integer'')
                 | Inr n \<Rightarrow> FreqFile_lines (c\<lparr>prefixLen := n\<rparr>) post)"
proof -
  have "FreqTableFromFreqFile (Some content) = FreqFile_lines c (line # post)"
    using assms(1,2) by (simp add: FreqTableFromFreqFile_def FreqFile_lines_append)
  then show ?thesis
    using assms(3)
    by (cases "line = []") (auto simp: FreqFile_line_empty FreqFile_line_single split: sum.splits)
qed

text \<open>
  The file of the lines \<^verbatim>\<open>2\<close>, \<^verbatim>\<open>1\<close>, an empty line and \<^verbatim>\<open>a b 3\<close>: the second line sets
  \<open>prefixLen\<close> to 1, and the last line is read with one field of prefix.
\<close>

theorem single_field_line_sets_prefixLen_witness:
  "Scanner_lines ''2\<newline>1\<newline>\<newline>a b 3\<newline>'' = [''2''] @ ''1'' # ['''', ''a b 3'']
   \<and> FreqFile_lines (NewChain 0) [''2''] = Inr (NewChain 2)
   \<and> FreqTableFromFreqFile (Some ''2\<newline>1\<newline>\<newline>a b 3\<newline>'') =
       Inr \<lparr>chain = Map.empty, prefixLen = 1, freqTable = [''a'' \<mapsto> [''b'' \<mapsto> 3]]\<rparr>"
  using single_field_line_sets_prefixLen
          [of "''2\<newline>1\<newline>\<newline>a b 3\<newline>''" "[''2'']" "''1''" "['''', ''a b 3'']" "NewChain 2"]
  by (simp add: eval_defs)

end
